theory Spec2Isabelle
  imports Main
begin

section \<open>Strings and the library functions the parser calls\<close>

text \<open>
  A Go string is a sequence of bytes, modelled as \<^typ>\<open>string\<close> (a list of 8-bit
  characters). The regular expressions of \<^verbatim>\<open>internal/arxiv/parser.go\<close> use ASCII
  classes only, so matching byte by byte agrees with Go's matching rune by rune: a byte
  below 0x80 never occurs inside a multi-byte UTF-8 sequence.
\<close>

definition is_digit :: "char \<Rightarrow> bool" where
  \<comment> \<open>the class \<^verbatim>\<open>\d\<close> of Go's regexp: \<^verbatim>\<open>[0-9]\<close>\<close>
  "is_digit c = (48 \<le> (of_char c :: nat) \<and> (of_char c :: nat) \<le> 57)"

definition is_space :: "char \<Rightarrow> bool" where
  \<comment> \<open>the class \<^verbatim>\<open>\s\<close> of Go's regexp: \<^verbatim>\<open>[\t\n\f\r ]\<close> (no vertical tab)\<close>
  "is_space c = (c = CHR 0x09 \<or> c = CHR 0x0A \<or> c = CHR 0x0C \<or> c = CHR 0x0D \<or> c = CHR 0x20)"

subsection \<open>A backtracking matcher for the regular expressions of the parser\<close>

text \<open>
  The fragment of Go's regexp syntax that the two patterns of the parser use: a character
  class repeated between \<open>lo\<close> and \<open>hi\<close> times (greedy; no upper bound when \<open>hi\<close> is
  \<open>None\<close>), concatenation, a greedy optional part, a numbered capturing group, and the
  end of the text (\<^verbatim>\<open>$\<close> without the multi-line flag).
\<close>

datatype regex =
    Atom "char \<Rightarrow> bool" nat "nat option"
  | Cat regex regex
  | Opt regex
  | Group nat regex
  | EndText

type_synonym captures = "(nat \<times> string) list"

text \<open>
  \<open>run r (s, caps)\<close> lists every way \<open>r\<close> matches a prefix of \<open>s\<close>, as the text left
  over and the groups captured, in the order a backtracking search tries them (a greedy
  repetition tries the longest first, a greedy option tries its body first). Go's
  \<^verbatim>\<open>regexp\<close> returns, among the matches that start leftmost, the one such a search
  finds first.
\<close>

fun run :: "regex \<Rightarrow> string \<times> captures \<Rightarrow> (string \<times> captures) list" where
  "run (Atom p lo hi) (s, caps) =
     (let k = length (takeWhile p s);
          top = (case hi of None \<Rightarrow> k | Some h \<Rightarrow> min h k)
      in map (\<lambda>n. (drop n s, caps)) (rev [lo..<Suc top]))"
| "run (Cat a b) st = concat (map (run b) (run a st))"
| "run (Opt a) st = run a st @ [st]"
| "run (Group i a) (s, caps) =
     map (\<lambda>(s', caps'). (s', (i, take (length s - length s') s) # caps')) (run a (s, caps))"
| "run EndText (s, caps) = (if s = [] then [(s, caps)] else [])"

fun numSubexp :: "regex \<Rightarrow> nat" where
  "numSubexp (Atom p lo hi) = 0"
| "numSubexp (Cat a b) = numSubexp a + numSubexp b"
| "numSubexp (Opt a) = numSubexp a"
| "numSubexp (Group i a) = Suc (numSubexp a)"
| "numSubexp EndText = 0"

definition submatch :: "captures \<Rightarrow> nat \<Rightarrow> string" where
  \<comment> \<open>the text of group \<open>i\<close>; a group that took no part in the match is the empty string\<close>
  "submatch caps i = (case map_of caps i of None \<Rightarrow> [] | Some t \<Rightarrow> t)"

definition matchHere :: "regex \<Rightarrow> string \<Rightarrow> string list option" where
  \<comment> \<open>the first match that starts at the head of \<open>s\<close>: the matched text, then groups 1..n\<close>
  "matchHere r s =
     (case run r (s, []) of
        [] \<Rightarrow> None
      | (rest, caps) # _ \<Rightarrow>
          Some (take (length s - length rest) s # map (submatch caps) [1..<Suc (numSubexp r)]))"

fun FindStringSubmatch :: "regex \<Rightarrow> string \<Rightarrow> string list" where
  \<comment> \<open>leftmost match; \<^verbatim>\<open>nil\<close> (the empty list) when there is none\<close>
  "FindStringSubmatch r [] = (case matchHere r [] of None \<Rightarrow> [] | Some m \<Rightarrow> m)"
| "FindStringSubmatch r (c # cs) =
     (case matchHere r (c # cs) of None \<Rightarrow> FindStringSubmatch r cs | Some m \<Rightarrow> m)"

subsection \<open>The Identity Normalizer\<close>

definition arxivIDRegex :: regex where
  \<comment> \<open>\<^verbatim>\<open>(\d{4}\.\d{4,5})(v\d+)?$\<close>\<close>
  "arxivIDRegex =
     Cat (Group 1 (Cat (Atom is_digit 4 (Some 4))
                  (Cat (Atom (\<lambda>c. c = CHR ''.'') 1 (Some 1))
                       (Atom is_digit 4 (Some 5)))))
    (Cat (Opt (Group 2 (Cat (Atom (\<lambda>c. c = CHR ''v'') 1 (Some 1))
                            (Atom is_digit 1 None))))
         EndText)"

definition extractArxivID :: "string \<Rightarrow> string" where
  "extractArxivID idStr =
     (let matches = FindStringSubmatch arxivIDRegex idStr
      in if length matches > 1 then matches ! 1 else [])"

subsection \<open>Shapes of identifiers\<close>

text \<open>
  The two parts of the pattern as regular expressions of their own, and the shapes the
  specification names: an identifier \<^verbatim>\<open><4 digits>.<4-5 digits>\<close>, a version suffix
  \<^verbatim>\<open>v<digits>\<close>, a text that contains an identifier, and a text that ends with an
  identifier and an optional version suffix.
\<close>

definition idGroup :: regex where
  "idGroup = Group 1 (Cat (Atom is_digit 4 (Some 4))
                  (Cat (Atom (\<lambda>c. c = CHR ''.'') 1 (Some 1))
                       (Atom is_digit 4 (Some 5))))"

definition verGroup :: regex where
  "verGroup = Group 2 (Cat (Atom (\<lambda>c. c = CHR ''v'') 1 (Some 1)) (Atom is_digit 1 None))"

definition arxiv_id :: "string \<Rightarrow> bool" where
  "arxiv_id x = ((length x = 9 \<or> length x = 10) \<and> list_all is_digit (take 4 x) \<and>
                 x ! 4 = CHR ''.'' \<and> list_all is_digit (drop 5 x))"

definition version_suffix :: "string \<Rightarrow> bool" where
  "version_suffix v = (case v of [] \<Rightarrow> False | c # ds \<Rightarrow> c = CHR ''v'' \<and> ds \<noteq> [] \<and> list_all is_digit ds)"

definition opt_version :: "string \<Rightarrow> bool" where
  "opt_version v = (v = [] \<or> version_suffix v)"

fun contains_arxiv_id :: "string \<Rightarrow> bool" where
  "contains_arxiv_id [] = False"
| "contains_arxiv_id (c # cs) =
     (arxiv_id (take 9 (c # cs)) \<or> arxiv_id (take 10 (c # cs)) \<or> contains_arxiv_id cs)"

fun ends_with_arxiv_id :: "string \<Rightarrow> bool" where
  "ends_with_arxiv_id [] = False"
| "ends_with_arxiv_id (c # cs) =
     ((arxiv_id (take 9 (c # cs)) \<and> opt_version (drop 9 (c # cs))) \<or>
      (arxiv_id (take 10 (c # cs)) \<and> opt_version (drop 10 (c # cs))) \<or>
      ends_with_arxiv_id cs)"

subsection \<open>What the matcher accepts\<close>

lemma run_Atom_iff:
  "(s', c') \<in> set (run (Atom p lo hi) (s, c)) \<longleftrightarrow>
     c' = c \<and> (\<exists>x. s = x @ s' \<and> list_all p x \<and> lo \<le> length x \<and>
                 (case hi of None \<Rightarrow> True | Some h \<Rightarrow> length x \<le> h))"
proof
  assume "(s', c') \<in> set (run (Atom p lo hi) (s, c))"
  then obtain n where n: "s' = drop n s" "c' = c" "lo \<le> n" "n \<le> length (takeWhile p s)"
     "(case hi of None \<Rightarrow> True | Some h \<Rightarrow> n \<le> h)"
    by (auto simp: Let_def split: option.splits)
  have "take n s = take n (takeWhile p s)"
    using n(4) by (metis takeWhile_dropWhile_id take_append append_Nil2 diff_is_0_eq take_0)
  then have "list_all p (take n s)"
    by (metis list_all_iff set_takeWhileD in_set_takeD)
  moreover have "length (take n s) = n"
    using n(4) length_takeWhile_le[of p s] by simp
  ultimately show "c' = c \<and> (\<exists>x. s = x @ s' \<and> list_all p x \<and> lo \<le> length x \<and>
                 (case hi of None \<Rightarrow> True | Some h \<Rightarrow> length x \<le> h))"
    using n by (intro conjI exI[of _ "take n s"]) (auto split: option.splits)
next
  assume "c' = c \<and> (\<exists>x. s = x @ s' \<and> list_all p x \<and> lo \<le> length x \<and>
                 (case hi of None \<Rightarrow> True | Some h \<Rightarrow> length x \<le> h))"
  then obtain x where x: "c' = c" "s = x @ s'" "list_all p x" "lo \<le> length x"
     "(case hi of None \<Rightarrow> True | Some h \<Rightarrow> length x \<le> h)" by blast
  have "takeWhile p s = x @ takeWhile p s'"
    using x(2,3) by (simp add: list_all_iff)
  then have "length x \<le> length (takeWhile p s)" by simp
  then show "(s', c') \<in> set (run (Atom p lo hi) (s, c))"
    using x by (auto simp: Let_def image_iff split: option.splits intro!: bexI[of _ "length x"])
qed

lemma in_run_Cat: "st'' \<in> set (run (Cat a b) st) \<longleftrightarrow> (\<exists>st' \<in> set (run a st). st'' \<in> set (run b st'))"
  by auto

lemma in_run_Opt: "st' \<in> set (run (Opt a) st) \<longleftrightarrow> st' \<in> set (run a st) \<or> st' = st"
  by auto

lemma in_run_Group:
  "(s', c') \<in> set (run (Group i a) (s, c)) \<longleftrightarrow>
     (\<exists>c''. (s', c'') \<in> set (run a (s, c)) \<and> c' = (i, take (length s - length s') s) # c'')"
  by (force simp: image_iff)

lemma in_run_EndText: "(s', c') \<in> set (run EndText (s, c)) \<longleftrightarrow> s = [] \<and> s' = [] \<and> c' = c"
  by auto

lemma dot_block: "list_all (\<lambda>c. c = CHR ''.'') x \<and> 1 \<le> length x \<and> length x \<le> 1 \<longleftrightarrow> x = ''.''"
  by (cases x) auto

lemma in_run_idGroup:
  "(s', c') \<in> set (run idGroup (s, c)) \<longleftrightarrow>
     (\<exists>a b. s = a @ ''.'' @ b @ s' \<and> length a = 4 \<and> list_all is_digit a \<and>
            (length b = 4 \<or> length b = 5) \<and> list_all is_digit b \<and>
            c' = (1, a @ ''.'' @ b) # c)" (is "?L \<longleftrightarrow> ?R")
proof
  assume ?L
  then obtain c'' where g: "(s', c'') \<in> set (run (Cat (Atom is_digit 4 (Some 4))
                  (Cat (Atom (\<lambda>c. c = CHR ''.'') 1 (Some 1))
                       (Atom is_digit 4 (Some 5)))) (s, c))"
      and c': "c' = (1, take (length s - length s') s) # c''"
    unfolding idGroup_def in_run_Group by blast
  from g obtain s1 c1 s2 c2 where
      1: "(s1, c1) \<in> set (run (Atom is_digit 4 (Some 4)) (s, c))"
  and 2: "(s2, c2) \<in> set (run (Atom (\<lambda>c. c = CHR ''.'') 1 (Some 1)) (s1, c1))"
  and 3: "(s', c'') \<in> set (run (Atom is_digit 4 (Some 5)) (s2, c2))"
    by (auto simp only: in_run_Cat)
  from 1 obtain a where a: "c1 = c" "s = a @ s1" "list_all is_digit a" "length a = 4"
    unfolding run_Atom_iff by auto
  from 2 obtain x where x: "c2 = c1" "s1 = x @ s2" "list_all (\<lambda>c. c = CHR ''.'') x" "1 \<le> length x" "length x \<le> 1"
    unfolding run_Atom_iff by auto
  from 3 obtain b where b: "c'' = c2" "s2 = b @ s'" "list_all is_digit b" "4 \<le> length b" "length b \<le> 5"
    unfolding run_Atom_iff by auto
  have xd: "x = ''.''" using x(3,4,5) dot_block by blast
  have "take (length s - length s') s = a @ ''.'' @ b"
    using a(2) x(2) b(2) xd by simp
  moreover have "length b = 4 \<or> length b = 5" using b(4,5) by linarith
  ultimately show ?R
    using a x b xd c' by (intro exI[of _ a] exI[of _ b]) simp
next
  assume ?R
  then obtain a b where ab: "s = a @ ''.'' @ b @ s'" "length a = 4" "list_all is_digit a"
            "length b = 4 \<or> length b = 5" "list_all is_digit b"
            "c' = (1, a @ ''.'' @ b) # c" by blast
  have 1: "(''.'' @ b @ s', c) \<in> set (run (Atom is_digit 4 (Some 4)) (s, c))"
    unfolding run_Atom_iff using ab by (intro conjI exI[of _ a]) auto
  have 2: "(b @ s', c) \<in> set (run (Atom (\<lambda>c. c = CHR ''.'') 1 (Some 1)) (''.'' @ b @ s', c))"
    unfolding run_Atom_iff by (intro conjI exI[of _ "''.''"]) auto
  have 3: "(s', c) \<in> set (run (Atom is_digit 4 (Some 5)) (b @ s', c))"
    unfolding run_Atom_iff using ab by (intro conjI exI[of _ b]) auto
  have "(s', c) \<in> set (run (Cat (Atom is_digit 4 (Some 4))
                  (Cat (Atom (\<lambda>c. c = CHR ''.'') 1 (Some 1))
                       (Atom is_digit 4 (Some 5)))) (s, c))"
    by (simp only: in_run_Cat) (use 1 2 3 in blast)
  moreover have "take (length s - length s') s = a @ ''.'' @ b"
    using ab(1) by simp
  ultimately show ?L
    unfolding idGroup_def in_run_Group using ab(6) by (intro exI[of _ c]) simp
qed

lemma v_block: "list_all (\<lambda>c. c = CHR ''v'') x \<and> 1 \<le> length x \<and> length x \<le> 1 \<longleftrightarrow> x = ''v''"
  by (cases x) auto

lemma in_run_verGroup:
  "(s', c') \<in> set (run verGroup (s, c)) \<longleftrightarrow>
     (\<exists>ds. s = ''v'' @ ds @ s' \<and> ds \<noteq> [] \<and> list_all is_digit ds \<and> c' = (2, ''v'' @ ds) # c)"
  (is "?L \<longleftrightarrow> ?R")
proof
  assume ?L
  then obtain c'' where g: "(s', c'') \<in> set (run (Cat (Atom (\<lambda>c. c = CHR ''v'') 1 (Some 1)) (Atom is_digit 1 None)) (s, c))"
      and c': "c' = (2, take (length s - length s') s) # c''"
    unfolding verGroup_def in_run_Group by blast
  from g obtain s1 c1 where
      1: "(s1, c1) \<in> set (run (Atom (\<lambda>c. c = CHR ''v'') 1 (Some 1)) (s, c))"
  and 2: "(s', c'') \<in> set (run (Atom is_digit 1 None) (s1, c1))"
    by (auto simp only: in_run_Cat)
  from 1 obtain x where x: "c1 = c" "s = x @ s1" "list_all (\<lambda>c. c = CHR ''v'') x" "1 \<le> length x" "length x \<le> 1"
    unfolding run_Atom_iff by auto
  from 2 obtain ds where ds: "c'' = c1" "s1 = ds @ s'" "list_all is_digit ds" "1 \<le> length ds"
    unfolding run_Atom_iff by auto
  have xv: "x = ''v''" using x(3,4,5) v_block by blast
  have "take (length s - length s') s = ''v'' @ ds"
    using x(2) ds(2) xv by simp
  moreover have "ds \<noteq> []" using ds(4) by auto
  ultimately show ?R
    using x ds xv c' by (intro exI[of _ ds]) simp
next
  assume ?R
  then obtain ds where ds: "s = ''v'' @ ds @ s'" "ds \<noteq> []" "list_all is_digit ds"
     "c' = (2, ''v'' @ ds) # c" by blast
  have 1: "(ds @ s', c) \<in> set (run (Atom (\<lambda>c. c = CHR ''v'') 1 (Some 1)) (s, c))"
    unfolding run_Atom_iff using ds(1) by (intro conjI exI[of _ "''v''"]) auto
  have "1 \<le> length ds" using ds(2) by (cases ds) auto
  then have 2: "(s', c) \<in> set (run (Atom is_digit 1 None) (ds @ s', c))"
    unfolding run_Atom_iff using ds by (intro conjI exI[of _ ds]) auto
  have "(s', c) \<in> set (run (Cat (Atom (\<lambda>c. c = CHR ''v'') 1 (Some 1)) (Atom is_digit 1 None)) (s, c))"
    by (simp only: in_run_Cat) (use 1 2 in blast)
  moreover have "take (length s - length s') s = ''v'' @ ds"
    using ds(1) by simp
  ultimately show ?L
    unfolding verGroup_def in_run_Group using ds(4) by (intro exI[of _ c]) simp
qed

lemma arxivIDRegex_parts: "arxivIDRegex = Cat idGroup (Cat (Opt verGroup) EndText)"
  by (simp add: arxivIDRegex_def idGroup_def verGroup_def)

lemma in_run_arxivIDRegex:
  "(rest, caps) \<in> set (run arxivIDRegex (s, [])) \<longleftrightarrow>
     rest = [] \<and>
     (\<exists>a b. length a = 4 \<and> list_all is_digit a \<and>
            (length b = 4 \<or> length b = 5) \<and> list_all is_digit b \<and>
            ((s = a @ ''.'' @ b \<and> caps = [(1, a @ ''.'' @ b)]) \<or>
             (\<exists>ds. ds \<noteq> [] \<and> list_all is_digit ds \<and> s = a @ ''.'' @ b @ ''v'' @ ds \<and>
                   caps = [(2, ''v'' @ ds), (1, a @ ''.'' @ b)])))"
  (is "?L \<longleftrightarrow> ?R")
proof
  assume ?L
  then obtain s1 c1 s2 c2 where
      1: "(s1, c1) \<in> set (run idGroup (s, []))"
  and 2: "(s2, c2) \<in> set (run (Opt verGroup) (s1, c1))"
  and 3: "(rest, caps) \<in> set (run EndText (s2, c2))"
    by (auto simp only: arxivIDRegex_parts in_run_Cat)
  from 3 have e: "s2 = []" "rest = []" "caps = c2"
    by (simp_all only: in_run_EndText)
  from 1 obtain a b where ab: "s = a @ ''.'' @ b @ s1" "length a = 4" "list_all is_digit a"
     "length b = 4 \<or> length b = 5" "list_all is_digit b" "c1 = [(1, a @ ''.'' @ b)]"
    unfolding in_run_idGroup by blast
  from 2 have "(s2, c2) \<in> set (run verGroup (s1, c1)) \<or> (s2, c2) = (s1, c1)"
    by (simp only: in_run_Opt)
  then show ?R
  proof
    assume "(s2, c2) \<in> set (run verGroup (s1, c1))"
    then obtain ds where "s1 = ''v'' @ ds @ s2" "ds \<noteq> []" "list_all is_digit ds" "c2 = (2, ''v'' @ ds) # c1"
      unfolding in_run_verGroup by blast
    then have "ds \<noteq> [] \<and> list_all is_digit ds \<and> s = a @ ''.'' @ b @ ''v'' @ ds \<and>
                   caps = [(2, ''v'' @ ds), (1, a @ ''.'' @ b)]"
      using ab e by simp
    then show ?R using ab e by blast
  next
    assume "(s2, c2) = (s1, c1)"
    then have "s = a @ ''.'' @ b \<and> caps = [(1, a @ ''.'' @ b)]"
      using ab e by simp
    then show ?R using ab e by blast
  qed
next
  assume ?R
  then obtain a b where r: "rest = []" and ab: "length a = 4" "list_all is_digit a"
     "length b = 4 \<or> length b = 5" "list_all is_digit b"
    and d: "(s = a @ ''.'' @ b \<and> caps = [(1, a @ ''.'' @ b)]) \<or>
             (\<exists>ds. ds \<noteq> [] \<and> list_all is_digit ds \<and> s = a @ ''.'' @ b @ ''v'' @ ds \<and>
                   caps = [(2, ''v'' @ ds), (1, a @ ''.'' @ b)])" by blast
  from d show ?L
  proof
    assume h: "s = a @ ''.'' @ b \<and> caps = [(1, a @ ''.'' @ b)]"
    have 1: "([], caps) \<in> set (run idGroup (s, []))"
      unfolding in_run_idGroup using ab h by (intro exI[of _ a] exI[of _ b]) simp
    have 2: "([], caps) \<in> set (run (Opt verGroup) ([], caps))"
      by (simp add: in_run_Opt del: run.simps)
    have 3: "(rest, caps) \<in> set (run EndText ([], caps))"
      using r by (simp only: in_run_EndText)
    show ?L by (simp only: arxivIDRegex_parts in_run_Cat) (use 1 2 3 in blast)
  next
    assume "\<exists>ds. ds \<noteq> [] \<and> list_all is_digit ds \<and> s = a @ ''.'' @ b @ ''v'' @ ds \<and>
                   caps = [(2, ''v'' @ ds), (1, a @ ''.'' @ b)]"
    then obtain ds where h: "ds \<noteq> []" "list_all is_digit ds" "s = a @ ''.'' @ b @ ''v'' @ ds"
                   "caps = [(2, ''v'' @ ds), (1, a @ ''.'' @ b)]" by blast
    have 1: "(''v'' @ ds, [(1, a @ ''.'' @ b)]) \<in> set (run idGroup (s, []))"
      unfolding in_run_idGroup using ab h by (intro exI[of _ a] exI[of _ b]) simp
    have "([], caps) \<in> set (run verGroup (''v'' @ ds, [(1, a @ ''.'' @ b)]))"
      unfolding in_run_verGroup using h by (intro exI[of _ ds]) simp
    then have 2: "([], caps) \<in> set (run (Opt verGroup) (''v'' @ ds, [(1, a @ ''.'' @ b)]))"
      by (simp add: in_run_Opt del: run.simps)
    have 3: "(rest, caps) \<in> set (run EndText ([], caps))"
      using r by (simp only: in_run_EndText)
    show ?L by (simp only: arxivIDRegex_parts in_run_Cat) (use 1 2 3 in blast)
  qed
qed

lemma arxiv_id_iff:
  "arxiv_id x \<longleftrightarrow> (\<exists>a b. x = a @ ''.'' @ b \<and> length a = 4 \<and> list_all is_digit a \<and>
                       (length b = 4 \<or> length b = 5) \<and> list_all is_digit b)"
  (is "?L \<longleftrightarrow> ?R")
proof
  assume l: ?L
  then have len: "4 < length x" by (auto simp: arxiv_id_def)
  then have "x = take 4 x @ x ! 4 # drop 5 x"
    using id_take_nth_drop[of 4 x] by simp
  then have "x = take 4 x @ ''.'' @ drop 5 x" using l by (simp add: arxiv_id_def)
  moreover have "length (take 4 x) = 4" using len by simp
  moreover have "length (drop 5 x) = 4 \<or> length (drop 5 x) = 5" using l by (auto simp: arxiv_id_def)
  ultimately show ?R using l unfolding arxiv_id_def by blast
next
  assume ?R
  then show ?L by (auto simp: arxiv_id_def nth_append)
qed

lemma version_suffix_iff:
  "version_suffix v \<longleftrightarrow> (\<exists>ds. v = ''v'' @ ds \<and> ds \<noteq> [] \<and> list_all is_digit ds)"
  by (cases v) (auto simp: version_suffix_def)

lemma digit_not_dot: "is_digit c \<Longrightarrow> c \<noteq> CHR ''.''"
  by (auto simp: is_digit_def)

lemma digit_not_v: "is_digit c \<Longrightarrow> c \<noteq> CHR ''v''"
  by (auto simp: is_digit_def)

lemma in_run_idGroup':
  "(s', c') \<in> set (run idGroup (s, c)) \<longleftrightarrow> (\<exists>x. s = x @ s' \<and> arxiv_id x \<and> c' = (1, x) # c)"
  (is "?L \<longleftrightarrow> ?R")
proof
  assume ?L
  then obtain a b where "s = a @ ''.'' @ b @ s'" "length a = 4" "list_all is_digit a"
     "length b = 4 \<or> length b = 5" "list_all is_digit b" "c' = (1, a @ ''.'' @ b) # c"
    unfolding in_run_idGroup by blast
  then have "s = (a @ ''.'' @ b) @ s' \<and> arxiv_id (a @ ''.'' @ b) \<and> c' = (1, a @ ''.'' @ b) # c"
    unfolding arxiv_id_iff by auto
  then show ?R by blast
next
  assume ?R
  then obtain x where x: "s = x @ s'" "arxiv_id x" "c' = (1, x) # c" by blast
  from x(2) obtain a b where "x = a @ ''.'' @ b" "length a = 4" "list_all is_digit a"
     "length b = 4 \<or> length b = 5" "list_all is_digit b"
    unfolding arxiv_id_iff by blast
  then show ?L unfolding in_run_idGroup using x by (intro exI[of _ a] exI[of _ b]) simp
qed

lemma in_run_verGroup':
  "(s', c') \<in> set (run verGroup (s, c)) \<longleftrightarrow> (\<exists>v. s = v @ s' \<and> version_suffix v \<and> c' = (2, v) # c)"
  (is "?L \<longleftrightarrow> ?R")
proof
  assume ?L
  then obtain ds where "s = ''v'' @ ds @ s'" "ds \<noteq> []" "list_all is_digit ds" "c' = (2, ''v'' @ ds) # c"
    unfolding in_run_verGroup by blast
  then have "s = (''v'' @ ds) @ s' \<and> version_suffix (''v'' @ ds) \<and> c' = (2, ''v'' @ ds) # c"
    unfolding version_suffix_iff by auto
  then show ?R by blast
next
  assume ?R
  then obtain v where v: "s = v @ s'" "version_suffix v" "c' = (2, v) # c" by blast
  from v(2) obtain ds where "v = ''v'' @ ds" "ds \<noteq> []" "list_all is_digit ds"
    unfolding version_suffix_iff by blast
  then show ?L unfolding in_run_verGroup using v by (intro exI[of _ ds]) simp
qed

lemma version_suffix_nonempty: "version_suffix v \<Longrightarrow> v \<noteq> []"
  by (auto simp: version_suffix_def)

lemma in_run_arxiv:
  "(rest, caps) \<in> set (run arxivIDRegex (s, [])) \<longleftrightarrow>
     rest = [] \<and> (\<exists>x v. s = x @ v \<and> arxiv_id x \<and> opt_version v \<and>
                      caps = (if v = [] then [(1, x)] else [(2, v), (1, x)]))"
  (is "?L \<longleftrightarrow> ?R")
proof
  assume ?L
  then obtain s1 c1 s2 c2 where
      1: "(s1, c1) \<in> set (run idGroup (s, []))"
  and 2: "(s2, c2) \<in> set (run (Opt verGroup) (s1, c1))"
  and 3: "(rest, caps) \<in> set (run EndText (s2, c2))"
    by (auto simp only: arxivIDRegex_parts in_run_Cat)
  from 3 have e: "s2 = []" "rest = []" "caps = c2"
    by (simp_all only: in_run_EndText)
  from 1 obtain x where x: "s = x @ s1" "arxiv_id x" "c1 = [(1, x)]"
    unfolding in_run_idGroup' by blast
  from 2 have "(s2, c2) \<in> set (run verGroup (s1, c1)) \<or> (s2, c2) = (s1, c1)"
    by (simp only: in_run_Opt)
  then have "opt_version s1 \<and> caps = (if s1 = [] then [(1, x)] else [(2, s1), (1, x)])"
  proof
    assume "(s2, c2) \<in> set (run verGroup (s1, c1))"
    then obtain v where "s1 = v @ s2" "version_suffix v" "c2 = (2, v) # c1"
      unfolding in_run_verGroup' by blast
    then show ?thesis using e x version_suffix_nonempty[of v] by (simp add: opt_version_def)
  next
    assume "(s2, c2) = (s1, c1)"
    then show ?thesis using e x by (simp add: opt_version_def)
  qed
  then show ?R using e x by blast
next
  assume ?R
  then obtain x v where r: "rest = []" and xv: "s = x @ v" "arxiv_id x" "opt_version v"
     "caps = (if v = [] then [(1, x)] else [(2, v), (1, x)])" by blast
  have 1: "(v, [(1, x)]) \<in> set (run idGroup (s, []))"
    unfolding in_run_idGroup' using xv by simp
  have 2: "([], caps) \<in> set (run (Opt verGroup) (v, [(1, x)]))"
  proof (cases "v = []")
    case True
    then show ?thesis using xv by (simp add: in_run_Opt del: run.simps)
  next
    case False
    then have "version_suffix v" using xv(3) by (simp add: opt_version_def)
    then have "([], caps) \<in> set (run verGroup (v, [(1, x)]))"
      unfolding in_run_verGroup' using xv False by simp
    then show ?thesis by (simp add: in_run_Opt del: run.simps)
  qed
  have 3: "(rest, caps) \<in> set (run EndText ([], caps))"
    using r by (simp only: in_run_EndText)
  show ?L by (simp only: arxivIDRegex_parts in_run_Cat) (use 1 2 3 in blast)
qed

text \<open>The identifier and the version of a well-formed text are determined by the text.\<close>

lemma opt_version_no_digit_head: "opt_version v \<Longrightarrow> takeWhile is_digit v = []"
  by (cases v) (auto simp: opt_version_def version_suffix_def dest: digit_not_v)

lemma arxiv_id_drop5: 
  assumes "arxiv_id x" "opt_version v"
  shows "x = take 5 (x @ v) @ takeWhile is_digit (drop 5 (x @ v))"
proof -
  from assms(1) obtain a b where ab: "x = a @ ''.'' @ b" "length a = 4" "list_all is_digit a"
     "length b = 4 \<or> length b = 5" "list_all is_digit b"
    unfolding arxiv_id_iff by blast
  have "takeWhile is_digit (b @ v) = b"
    using ab(5) opt_version_no_digit_head[OF assms(2)] by (simp add: list_all_iff)
  then show ?thesis using ab by simp
qed

lemma id_version_unique:
  assumes "x @ v = x' @ v'" "arxiv_id x" "opt_version v" "arxiv_id x'" "opt_version v'"
  shows "x = x' \<and> v = v'"
proof -
  have "x = x'"
    using arxiv_id_drop5[OF assms(2,3)] arxiv_id_drop5[OF assms(4,5)] assms(1) by simp
  then show ?thesis using assms(1) by simp
qed

lemma numSubexp_arxiv: "numSubexp arxivIDRegex = 2"
  by (simp add: arxivIDRegex_def)

lemma matchHere_arxiv_Some:
  assumes "arxiv_id x" "opt_version v"
  shows "matchHere arxivIDRegex (x @ v) = Some [x @ v, x, v]"
proof -
  let ?caps = "if v = [] then [(1, x)] else [(2, v), (1, x)]"
  have "([], ?caps) \<in> set (run arxivIDRegex (x @ v, []))"
    unfolding in_run_arxiv using assms by blast
  then obtain rest caps more where run: "run arxivIDRegex (x @ v, []) = (rest, caps) # more"
    by (cases "run arxivIDRegex (x @ v, [])") auto
  then have "(rest, caps) \<in> set (run arxivIDRegex (x @ v, []))" by simp
  then obtain x' v' where r: "rest = []" "x @ v = x' @ v'" "arxiv_id x'" "opt_version v'"
     "caps = (if v' = [] then [(1, x')] else [(2, v'), (1, x')])"
    unfolding in_run_arxiv by blast
  have "x = x' \<and> v = v'" using id_version_unique[OF r(2) assms r(3,4)] .
  then have caps: "caps = ?caps" using r(5) by simp
  have "submatch caps 1 = x" "submatch caps 2 = v"
    using caps by (simp_all add: submatch_def)
  moreover have "[1..<Suc 2] = [1, 2]" by (simp add: upt_rec)
  ultimately show ?thesis
    using run r(1) by (simp add: matchHere_def numSubexp_arxiv del: run.simps)
qed

lemma matchHere_arxiv_None:
  "matchHere arxivIDRegex s = None \<longleftrightarrow> \<not> (\<exists>x v. s = x @ v \<and> arxiv_id x \<and> opt_version v)"
proof
  assume n: "matchHere arxivIDRegex s = None"
  show "\<not> (\<exists>x v. s = x @ v \<and> arxiv_id x \<and> opt_version v)"
  proof
    assume "\<exists>x v. s = x @ v \<and> arxiv_id x \<and> opt_version v"
    then obtain x v where "s = x @ v" "arxiv_id x" "opt_version v" by blast
    then show False using matchHere_arxiv_Some[of x v] n by simp
  qed
next
  assume n: "\<not> (\<exists>x v. s = x @ v \<and> arxiv_id x \<and> opt_version v)"
  have "run arxivIDRegex (s, []) = []"
  proof (cases "run arxivIDRegex (s, [])")
    case Nil
    then show ?thesis .
  next
    case (Cons st more)
    then have "(fst st, snd st) \<in> set (run arxivIDRegex (s, []))" by simp
    then show ?thesis using n unfolding in_run_arxiv by blast
  qed
  then show "matchHere arxivIDRegex s = None"
    by (simp add: matchHere_def del: run.simps)
qed

lemma Find_unfold:
  "FindStringSubmatch r s =
     (case matchHere r s of Some m \<Rightarrow> m
      | None \<Rightarrow> (case s of [] \<Rightarrow> [] | c # cs \<Rightarrow> FindStringSubmatch r cs))"
  by (cases s) (auto split: option.splits)

lemma opt_version_no_dot: "opt_version v \<Longrightarrow> CHR ''.'' \<notin> set v"
  by (cases v) (auto simp: opt_version_def version_suffix_def list_all_iff dest: digit_not_dot)

lemma takeWhile_stop: "\<forall>c\<in>set xs. P c \<Longrightarrow> \<not> P y \<Longrightarrow> takeWhile P (xs @ y # ys) = xs"
  by (induction xs) auto

lemma tail_after_dot:
  assumes "arxiv_id x" "opt_version v"
  shows "length (takeWhile (\<lambda>c. c \<noteq> CHR ''.'') (rev (p @ x @ v))) + 5 + length p = length (p @ x @ v)"
proof -
  from assms(1) obtain a b where ab: "x = a @ ''.'' @ b" "length a = 4" "list_all is_digit a"
     "length b = 4 \<or> length b = 5" "list_all is_digit b"
    unfolding arxiv_id_iff by blast
  have nodot: "\<forall>c \<in> set (rev (b @ v)). c \<noteq> CHR ''.''"
    using ab(5) opt_version_no_dot[OF assms(2)] by (auto simp: list_all_iff dest: digit_not_dot)
  have eq: "rev (p @ x @ v) = rev (b @ v) @ CHR ''.'' # (rev a @ rev p)"
    using ab(1) by simp
  have "takeWhile (\<lambda>c. c \<noteq> CHR ''.'') (rev (b @ v) @ CHR ''.'' # (rev a @ rev p)) = rev (b @ v)"
    by (rule takeWhile_stop) (use nodot in simp_all)
  then have "length (takeWhile (\<lambda>c. c \<noteq> CHR ''.'') (rev (p @ x @ v))) = length (b @ v)"
    by (simp only: eq length_rev)
  then show ?thesis using ab by simp
qed

lemma match_end_determined:
  assumes "p @ x @ v = q @ x' @ v'" "arxiv_id x" "opt_version v" "arxiv_id x'" "opt_version v'"
  shows "p = q \<and> x = x' \<and> v = v'"
proof -
  have "length p = length q"
    using tail_after_dot[OF assms(2,3), of p] tail_after_dot[OF assms(4,5), of q] assms(1)
    by simp
  then have "p = q" "x @ v = x' @ v'" using assms(1) by auto
  then show ?thesis using id_version_unique[OF _ assms(2-5)] by simp
qed

lemma Find_arxiv_match:
  assumes "arxiv_id x" "opt_version v"
  shows "FindStringSubmatch arxivIDRegex (p @ x @ v) = [x @ v, x, v]"
proof (induction p)
  case Nil
  show ?case using matchHere_arxiv_Some[OF assms] by (simp add: Find_unfold[of _ "x @ v"])
next
  case (Cons c p)
  have "matchHere arxivIDRegex ((c # p) @ x @ v) = None"
    unfolding matchHere_arxiv_None
  proof
    assume "\<exists>x' v'. (c # p) @ x @ v = x' @ v' \<and> arxiv_id x' \<and> opt_version v'"
    then obtain x' v' where h: "(c # p) @ x @ v = [] @ x' @ v'" "arxiv_id x'" "opt_version v'" by auto
    from match_end_determined[OF h(1) assms h(2,3)] show False by simp
  qed
  then show ?case using Cons.IH by (simp add: Find_unfold[of _ "(c # p) @ x @ v"])
qed

lemma Find_arxiv_shape:
  "FindStringSubmatch arxivIDRegex s \<noteq> [] \<Longrightarrow>
     \<exists>p x v. s = p @ x @ v \<and> arxiv_id x \<and> opt_version v"
proof (induction s)
  case Nil
  then have "matchHere arxivIDRegex [] \<noteq> None" by (auto split: option.splits)
  then show ?case unfolding matchHere_arxiv_None by simp
next
  case (Cons c s)
  show ?case
  proof (cases "matchHere arxivIDRegex (c # s)")
    case None
    then have "FindStringSubmatch arxivIDRegex s \<noteq> []" using Cons.prems by simp
    then obtain p x v where "s = p @ x @ v" "arxiv_id x" "opt_version v" using Cons.IH by blast
    then have "c # s = (c # p) @ x @ v \<and> arxiv_id x \<and> opt_version v" by simp
    then show ?thesis by blast
  next
    case (Some m)
    then have "matchHere arxivIDRegex (c # s) \<noteq> None" by simp
    then obtain x v where "c # s = [] @ x @ v" "arxiv_id x" "opt_version v"
      unfolding matchHere_arxiv_None by auto
    then show ?thesis by blast
  qed
qed

lemma arxiv_id_nonempty: "arxiv_id x \<Longrightarrow> x \<noteq> []"
  by (auto simp: arxiv_id_def)

lemma extractArxivID_match:
  "arxiv_id x \<Longrightarrow> opt_version v \<Longrightarrow> extractArxivID (p @ x @ v) = x"
  by (simp add: extractArxivID_def Find_arxiv_match)

lemma extractArxivID_shape:
  assumes "extractArxivID s \<noteq> []"
  shows "\<exists>p x v. s = p @ x @ v \<and> arxiv_id x \<and> opt_version v \<and> extractArxivID s = x"
proof -
  have "FindStringSubmatch arxivIDRegex s \<noteq> []"
    using assms by (auto simp: extractArxivID_def Let_def split: if_splits)
  then obtain p x v where h: "s = p @ x @ v" "arxiv_id x" "opt_version v"
    using Find_arxiv_shape by blast
  then show ?thesis using extractArxivID_match[OF h(2,3), of p] by blast
qed

lemma arxiv_id_length: "arxiv_id x \<Longrightarrow> length x = 9 \<or> length x = 10"
  by (simp add: arxiv_id_def)

lemma contains_arxiv_id_intro:
  assumes "arxiv_id x"
  shows "contains_arxiv_id (p @ x @ q)"
proof (induction p)
  case Nil
  obtain c cs where x: "x = c # cs" using arxiv_id_nonempty[OF assms] by (cases x) auto
  have "take (length x) (x @ q) = x" by simp
  then have "arxiv_id (take 9 (x @ q)) \<or> arxiv_id (take 10 (x @ q))"
    using arxiv_id_length[OF assms] assms by metis
  then show ?case using x by auto
next
  case (Cons c p)
  then show ?case by simp
qed

lemma contains_arxiv_id_iff:
  "contains_arxiv_id s \<longleftrightarrow> (\<exists>p x q. s = p @ x @ q \<and> arxiv_id x)"
proof
  show "contains_arxiv_id s \<Longrightarrow> \<exists>p x q. s = p @ x @ q \<and> arxiv_id x"
  proof (induction s)
    case Nil
    then show ?case by simp
  next
    case (Cons c s)
    from Cons.prems consider "arxiv_id (take 9 (c # s))" | "arxiv_id (take 10 (c # s))" | "contains_arxiv_id s"
      by auto
    then show ?case
    proof cases
      case 1
      have "c # s = [] @ take 9 (c # s) @ drop 9 (c # s)" by simp
      then show ?thesis using 1 by blast
    next
      case 2
      have "c # s = [] @ take 10 (c # s) @ drop 10 (c # s)" by simp
      then show ?thesis using 2 by blast
    next
      case 3
      then obtain p x q where "s = p @ x @ q" "arxiv_id x" using Cons.IH by blast
      then have "c # s = (c # p) @ x @ q \<and> arxiv_id x" by simp
      then show ?thesis by blast
    qed
  qed
next
  show "\<exists>p x q. s = p @ x @ q \<and> arxiv_id x \<Longrightarrow> contains_arxiv_id s"
    using contains_arxiv_id_intro by blast
qed

lemma ends_with_arxiv_id_intro:
  assumes "arxiv_id x" "opt_version v"
  shows "ends_with_arxiv_id (p @ x @ v)"
proof (induction p)
  case Nil
  obtain c cs where x: "x = c # cs" using arxiv_id_nonempty[OF assms(1)] by (cases x) auto
  have "take (length x) (x @ v) = x" "drop (length x) (x @ v) = v" by simp_all
  then have "(arxiv_id (take 9 (x @ v)) \<and> opt_version (drop 9 (x @ v))) \<or>
             (arxiv_id (take 10 (x @ v)) \<and> opt_version (drop 10 (x @ v)))"
    using arxiv_id_length[OF assms(1)] assms by metis
  then show ?case using x by auto
next
  case (Cons c p)
  then show ?case by simp
qed

lemma ends_with_arxiv_id_iff:
  "ends_with_arxiv_id s \<longleftrightarrow> (\<exists>p x v. s = p @ x @ v \<and> arxiv_id x \<and> opt_version v)"
proof
  show "ends_with_arxiv_id s \<Longrightarrow> \<exists>p x v. s = p @ x @ v \<and> arxiv_id x \<and> opt_version v"
  proof (induction s)
    case Nil
    then show ?case by simp
  next
    case (Cons c s)
    from Cons.prems consider
        "arxiv_id (take 9 (c # s)) \<and> opt_version (drop 9 (c # s))"
      | "arxiv_id (take 10 (c # s)) \<and> opt_version (drop 10 (c # s))"
      | "ends_with_arxiv_id s"
      by auto
    then show ?case
    proof cases
      case 1
      have "c # s = [] @ take 9 (c # s) @ drop 9 (c # s)" by simp
      then show ?thesis using 1 by blast
    next
      case 2
      have "c # s = [] @ take 10 (c # s) @ drop 10 (c # s)" by simp
      then show ?thesis using 2 by blast
    next
      case 3
      then obtain p x v where "s = p @ x @ v" "arxiv_id x" "opt_version v" using Cons.IH by blast
      then have "c # s = (c # p) @ x @ v \<and> arxiv_id x \<and> opt_version v" by simp
      then show ?thesis by blast
    qed
  qed
next
  show "\<exists>p x v. s = p @ x @ v \<and> arxiv_id x \<and> opt_version v \<Longrightarrow> ends_with_arxiv_id s"
    using ends_with_arxiv_id_intro by blast
qed

lemma ends_with_last_digit:
  assumes "ends_with_arxiv_id s"
  shows "s \<noteq> [] \<and> is_digit (last s)"
proof -
  from assms obtain p x v where s: "s = p @ x @ v" "arxiv_id x" "opt_version v"
    unfolding ends_with_arxiv_id_iff by blast
  from s(2) obtain a b where ab: "x = a @ ''.'' @ b" "length b = 4 \<or> length b = 5" "list_all is_digit b"
    unfolding arxiv_id_iff by blast
  have b: "b \<noteq> []" using ab(2) by auto
  show ?thesis
  proof (cases "v = []")
    case True
    then have "last s = last b" using s(1) ab(1) b by simp
    then show ?thesis using ab(3) b s(1) ab(1) by (simp add: list_all_iff)
  next
    case False
    then obtain ds where ds: "v = ''v'' @ ds" "ds \<noteq> []" "list_all is_digit ds"
      using s(3) unfolding opt_version_def version_suffix_iff by blast
    then have "last s = last ds" using s(1) by simp
    then show ?thesis using ds s(1) by (simp add: list_all_iff)
  qed
qed

lemma extractArxivID_ends: "extractArxivID s \<noteq> [] \<Longrightarrow> ends_with_arxiv_id s"
proof -
  assume "extractArxivID s \<noteq> []"
  then obtain p x v where "s = p @ x @ v" "arxiv_id x" "opt_version v"
    using extractArxivID_shape by blast
  then show ?thesis using ends_with_arxiv_id_intro by simp
qed

text \<open>The table of \<^verbatim>\<open>TestExtractArxivID\<close>, run on the model.\<close>

lemma extractArxivID_test_table:
  "extractArxivID ''http://arxiv.org/abs/2301.12345v1'' = ''2301.12345''"
  "extractArxivID ''http://arxiv.org/abs/2301.12345v2'' = ''2301.12345''"
  "extractArxivID ''http://arxiv.org/abs/1234.56789v1'' = ''1234.56789''"
  "extractArxivID ''2301.12345v1'' = ''2301.12345''"
  "extractArxivID ''invalid'' = []"
  by code_simp+

subsection \<open>The claims about the Identity Normalizer\<close>

text \<open>
  Claim C2. For every text of the form
  \<^verbatim>\<open><scheme>://.../<4 digits>.<4-5 digits>v<digits>\<close> (indeed for every text that ends
  with such an identifier and version, whatever stands before them), \<open>extractArxivID\<close>
  returns the identifier without the version suffix, so two versions of one item
  resolve to the same identifier; and for every text that does not contain the pattern
  \<^verbatim>\<open><4 digits>.<4-5 digits>\<close> it returns the empty string.
\<close>

theorem extractArxivID_strips_version:
  "(length a = 4 \<and> list_all is_digit a \<and> (length b = 4 \<or> length b = 5) \<and> list_all is_digit b \<and>
    ds \<noteq> [] \<and> list_all is_digit ds
      \<longrightarrow> extractArxivID (scheme @ ''://'' @ path @ ''/'' @ a @ ''.'' @ b @ ''v'' @ ds) = a @ ''.'' @ b
        \<and> extractArxivID (pre @ a @ ''.'' @ b @ ''v'' @ ds) = a @ ''.'' @ b)
   \<and> (\<not> contains_arxiv_id s \<longrightarrow> extractArxivID s = [])"
proof (intro conjI impI)
  assume h: "length a = 4 \<and> list_all is_digit a \<and> (length b = 4 \<or> length b = 5) \<and>
             list_all is_digit b \<and> ds \<noteq> [] \<and> list_all is_digit ds"
  then have x: "arxiv_id (a @ ''.'' @ b)" unfolding arxiv_id_iff by blast
  have v: "opt_version (''v'' @ ds)"
    using h unfolding opt_version_def version_suffix_iff by blast
  show "extractArxivID (pre @ a @ ''.'' @ b @ ''v'' @ ds) = a @ ''.'' @ b"
    using extractArxivID_match[OF x v, of pre] by simp
  show "extractArxivID (scheme @ ''://'' @ path @ ''/'' @ a @ ''.'' @ b @ ''v'' @ ds) = a @ ''.'' @ b"
    using extractArxivID_match[OF x v, of "scheme @ ''://'' @ path @ ''/''"] by simp
next
  assume n: "\<not> contains_arxiv_id s"
  show "extractArxivID s = []"
  proof (rule ccontr)
    assume "extractArxivID s \<noteq> []"
    then obtain p x v where "s = p @ x @ v" "arxiv_id x"
      using extractArxivID_shape by blast
    then have "contains_arxiv_id s" using contains_arxiv_id_intro by blast
    then show False using n by simp
  qed
qed

theorem extractArxivID_strips_version_witness:
  "extractArxivID ''http://host/abs/2301.12345v1'' = ''2301.12345'' \<and>
   extractArxivID ''http://host/abs/2301.12345v2'' = ''2301.12345'' \<and>
   extractArxivID ''invalid'' = []"
proof -
  have d: "list_all is_digit ''2301''" "list_all is_digit ''12345''"
          "list_all is_digit ''1''" "list_all is_digit ''2''"
    by (simp_all add: is_digit_def)
  have n: "\<not> contains_arxiv_id ''invalid''"
    by (simp add: arxiv_id_def)
  show ?thesis
    using extractArxivID_strips_version[of "''2301''" "''12345''" "''1''" "''http''" "''host/abs''" "[]" "''invalid''"]
          extractArxivID_strips_version[of "''2301''" "''12345''" "''2''" "''http''" "''host/abs''" "[]" "''invalid''"]
          d n
    by simp
qed

text \<open>
  Claim C10, as the code has it. The pattern is recognised only where it ends the text:
  \<open>extractArxivID\<close> returns an identifier exactly when the text ends with an identifier
  and an optional version suffix, and then it returns that final identifier. So a text in
  which an identifier (and optional version) is followed by further text whose last
  character is not a digit (a trailing slash, a path segment) yields the empty string
  although it contains the pattern. Further text that itself completes an identifier at
  the end of the text does not: the match is then that final occurrence.
\<close>

theorem extractArxivID_final_occurrence:
  "(extractArxivID s \<noteq> [] \<longleftrightarrow> ends_with_arxiv_id s) \<and>
   (arxiv_id x \<and> opt_version v \<longrightarrow> extractArxivID (p @ x @ v) = x) \<and>
   (arxiv_id x \<and> opt_version v \<and> t \<noteq> [] \<and> \<not> is_digit (last t)
      \<longrightarrow> contains_arxiv_id (p @ x @ v @ t) \<and> extractArxivID (p @ x @ v @ t) = [])"
proof (intro conjI impI iffI)
  assume "extractArxivID s \<noteq> []"
  then show "ends_with_arxiv_id s"
    by (rule extractArxivID_ends)
next
  assume "ends_with_arxiv_id s"
  then obtain q y w where "s = q @ y @ w" "arxiv_id y" "opt_version w"
    unfolding ends_with_arxiv_id_iff by blast
  then show "extractArxivID s \<noteq> []"
    using extractArxivID_match[of y w q] arxiv_id_nonempty[of y] by simp
next
  assume "arxiv_id x \<and> opt_version v"
  then show "extractArxivID (p @ x @ v) = x"
    using extractArxivID_match by blast
next
  assume h: "arxiv_id x \<and> opt_version v \<and> t \<noteq> [] \<and> \<not> is_digit (last t)"
  show "contains_arxiv_id (p @ x @ v @ t)"
    using contains_arxiv_id_intro[of x p "v @ t"] h by simp
  show "extractArxivID (p @ x @ v @ t) = []"
  proof (rule ccontr)
    assume "extractArxivID (p @ x @ v @ t) \<noteq> []"
    then have "ends_with_arxiv_id (p @ x @ v @ t)"
      by (rule extractArxivID_ends)
    then have "is_digit (last (p @ x @ v @ t))"
      using ends_with_last_digit by blast
    then show False using h by simp
  qed
qed

theorem extractArxivID_final_occurrence_witness:
  "extractArxivID ''http://arxiv.org/abs/2301.12345v1'' \<noteq> [] \<and>
   ends_with_arxiv_id ''http://arxiv.org/abs/2301.12345v1'' \<and>
   extractArxivID (''http://arxiv.org/abs/'' @ ''2301.12345'' @ ''v1'') = ''2301.12345'' \<and>
   contains_arxiv_id (''http://arxiv.org/abs/'' @ ''2301.12345'' @ ''v1'' @ ''/'') \<and>
   extractArxivID (''http://arxiv.org/abs/'' @ ''2301.12345'' @ ''v1'' @ ''/'') = []"
proof -
  have e: "ends_with_arxiv_id ''http://arxiv.org/abs/2301.12345v1''"
    by code_simp
  have x: "arxiv_id ''2301.12345''" by (simp add: arxiv_id_def is_digit_def)
  have v: "opt_version ''v1''" by (simp add: opt_version_def version_suffix_def is_digit_def)
  have t: "''/'' \<noteq> []" "\<not> is_digit (last ''/'')" by (simp_all add: is_digit_def)
  show ?thesis
    using extractArxivID_final_occurrence[of "''http://arxiv.org/abs/2301.12345v1''" "''2301.12345''"
            "''v1''" "''http://arxiv.org/abs/''" "''/''"]
          e x v t
    by blast
qed

text \<open>
  The claim as written, that the result is empty for every text in which the pattern is
  followed by any further text, fails where the further text ends with an identifier of
  its own, and where it lengthens the version suffix.
\<close>

theorem extractArxivID_trailing_text_counterexample:
  "arxiv_id ''2301.12345'' \<and> opt_version [] \<and> opt_version ''v1'' \<and>
   extractArxivID (''http://arxiv.org/abs/'' @ ''2301.12345'' @ [] @ ''/2302.54321'') = ''2302.54321'' \<and>
   extractArxivID ([] @ ''2301.12345'' @ ''v1'' @ ''0'') = ''2301.12345''"
  by code_simp

section \<open>The Text Normalizer\<close>

text \<open>
  \<^verbatim>\<open>cleanText\<close> replaces every match of \<^verbatim>\<open>\s+\<close> by one space
  (\<^verbatim>\<open>ReplaceAllString\<close>) and then calls \<^verbatim>\<open>strings.TrimSpace\<close>.
  \<open>ReplaceAllString\<close> scans from the left; where the pattern matches a non-empty text it
  writes the replacement and goes on behind the match, elsewhere it copies one character.
  (Neither pattern of the parser matches the empty text, so Go's rule for empty matches
  is not needed; the model copies the character there.)

  \<^verbatim>\<open>strings.TrimSpace\<close> removes, from both ends, every rune for which
  \<^verbatim>\<open>unicode.IsSpace\<close> holds: the six ASCII ones (which include the vertical tab,
  unlike \<^verbatim>\<open>\s\<close>), U+0085, U+00A0, U+1680, U+2000..U+200A, U+2028, U+2029, U+202F,
  U+205F and U+3000. \<open>space_encodings\<close> lists their UTF-8 encodings; a byte sequence that
  is the encoding of none of them decodes to a rune that is not a space.
\<close>

function ReplaceAllString :: "regex \<Rightarrow> string \<Rightarrow> string \<Rightarrow> string" where
  "ReplaceAllString r [] repl = []"
| "ReplaceAllString r (c # cs) repl =
     (case run r (c # cs, []) of
        [] \<Rightarrow> c # ReplaceAllString r cs repl
      | (rest, caps) # more \<Rightarrow>
          if length rest < length (c # cs) then repl @ ReplaceAllString r rest repl
          else c # ReplaceAllString r cs repl)"
  by pat_completeness auto
termination
  by (relation "measure (\<lambda>(r, s, repl). length s)") auto

definition whitespaceRegex :: regex where
  "whitespaceRegex = Atom is_space 1 None"

definition space_encodings :: "string list" where
  "space_encodings =
     [[CHR 0x09], [CHR 0x0A], [CHR 0x0B], [CHR 0x0C], [CHR 0x0D], [CHR 0x20],
      [CHR 0xC2, CHR 0x85], [CHR 0xC2, CHR 0xA0],
      [CHR 0xE1, CHR 0x9A, CHR 0x80],
      [CHR 0xE2, CHR 0x80, CHR 0x80], [CHR 0xE2, CHR 0x80, CHR 0x81],
      [CHR 0xE2, CHR 0x80, CHR 0x82], [CHR 0xE2, CHR 0x80, CHR 0x83],
      [CHR 0xE2, CHR 0x80, CHR 0x84], [CHR 0xE2, CHR 0x80, CHR 0x85],
      [CHR 0xE2, CHR 0x80, CHR 0x86], [CHR 0xE2, CHR 0x80, CHR 0x87],
      [CHR 0xE2, CHR 0x80, CHR 0x88], [CHR 0xE2, CHR 0x80, CHR 0x89],
      [CHR 0xE2, CHR 0x80, CHR 0x8A],
      [CHR 0xE2, CHR 0x80, CHR 0xA8], [CHR 0xE2, CHR 0x80, CHR 0xA9],
      [CHR 0xE2, CHR 0x80, CHR 0xAF], [CHR 0xE2, CHR 0x81, CHR 0x9F],
      [CHR 0xE3, CHR 0x80, CHR 0x80]]"

definition leading_space :: "string \<Rightarrow> nat" where
  "leading_space s =
     (case find (\<lambda>w. take (length w) s = w) space_encodings of None \<Rightarrow> 0 | Some w \<Rightarrow> length w)"

definition trailing_space :: "string \<Rightarrow> nat" where
  "trailing_space s =
     (case find (\<lambda>w. drop (length s - length w) s = w) space_encodings of
        None \<Rightarrow> 0 | Some w \<Rightarrow> length w)"

lemma leading_space_Nil: "leading_space [] = 0"
  by (simp add: leading_space_def space_encodings_def)

lemma trailing_space_Nil: "trailing_space [] = 0"
  by (simp add: trailing_space_def space_encodings_def)

function TrimLeft :: "string \<Rightarrow> string" where
  "TrimLeft s = (if leading_space s = 0 then s else TrimLeft (drop (leading_space s) s))"
  by pat_completeness auto
termination
proof (relation "measure length")
  fix s :: string
  assume "leading_space s \<noteq> 0"
  then have "s \<noteq> []" using leading_space_Nil by auto
  then show "(drop (leading_space s) s, s) \<in> measure length"
    using \<open>leading_space s \<noteq> 0\<close> by simp
qed simp

function TrimRight :: "string \<Rightarrow> string" where
  "TrimRight s = (if trailing_space s = 0 then s
                  else TrimRight (take (length s - trailing_space s) s))"
  by pat_completeness auto
termination
proof (relation "measure length")
  fix s :: string
  assume "trailing_space s \<noteq> 0"
  then have "s \<noteq> []" using trailing_space_Nil by auto
  then show "(take (length s - trailing_space s) s, s) \<in> measure length"
    using \<open>trailing_space s \<noteq> 0\<close> by simp
qed simp

definition TrimSpace :: "string \<Rightarrow> string" where
  "TrimSpace s = TrimRight (TrimLeft s)"

definition cleanText :: "string \<Rightarrow> string" where
  "cleanText text = TrimSpace (ReplaceAllString whitespaceRegex text '' '')"

function runs :: "(char \<Rightarrow> bool) \<Rightarrow> string \<Rightarrow> string list" where
  "runs p [] = []"
| "runs p (c # cs) =
     (if p c then (c # takeWhile p cs) # runs p (dropWhile p cs)
      else (c # takeWhile (\<lambda>d. \<not> p d) cs) # runs p (dropWhile (\<lambda>d. \<not> p d) cs))"
  by pat_completeness auto
termination
  by (relation "measure (\<lambda>(p, s). length s)") (auto simp: le_imp_less_Suc length_dropWhile_le)

definition collapse_runs :: "string \<Rightarrow> string" where
  "collapse_runs s = concat (map (\<lambda>g. if is_space (hd g) then '' '' else g) (runs is_space s))"

text \<open>
  \<open>runs p s\<close> cuts \<open>s\<close> into its maximal runs of characters that are all in the class
  \<open>p\<close> or all outside it; \<open>collapse_runs\<close> is the specification's wording, every
  maximal run of whitespace replaced by a single space. \<open>collapsed\<close> holds of a text whose
  only whitespace in the sense of \<^verbatim>\<open>\s\<close> are single spaces, no two of them adjacent.
\<close>

fun collapsed :: "string \<Rightarrow> bool" where
  "collapsed [] = True"
| "collapsed [c] = (is_space c \<longrightarrow> c = CHR '' '')"
| "collapsed (c # d # cs) = ((is_space c \<longrightarrow> c = CHR '' '' \<and> \<not> is_space d) \<and> collapsed (d # cs))"

text \<open>
  The specification's sentence read with one notion of whitespace throughout, in the two
  ways the code offers: with the class \<^verbatim>\<open>\s\<close> for the runs and for the trimming
  (\<open>normalizeRegexpSpace\<close>), and with the runes of \<^verbatim>\<open>unicode.IsSpace\<close> for both
  (\<open>normalizeUnicodeSpace\<close>; \<open>collapseUnicode\<close> writes one space for each maximal run of
  such runes, its flag telling whether the rune before was one).
\<close>

definition trimClass :: "(char \<Rightarrow> bool) \<Rightarrow> string \<Rightarrow> string" where
  "trimClass W s = rev (dropWhile W (rev (dropWhile W s)))"

definition normalizeRegexpSpace :: "string \<Rightarrow> string" where
  "normalizeRegexpSpace s = trimClass is_space (collapse_runs s)"

function collapseUnicode :: "bool \<Rightarrow> string \<Rightarrow> string" where
  "collapseUnicode inRun s =
     (if leading_space s \<noteq> 0
      then (if inRun then [] else '' '') @ collapseUnicode True (drop (leading_space s) s)
      else case s of [] \<Rightarrow> [] | c # cs \<Rightarrow> c # collapseUnicode False cs)"
  by pat_completeness auto
termination
proof (relation "measure (\<lambda>(inRun, s). length s)")
  fix inRun :: bool and s :: string
  assume "leading_space s \<noteq> 0"
  then have "s \<noteq> []" using leading_space_Nil by auto
  then show "((True, drop (leading_space s) s), (inRun, s)) \<in> measure (\<lambda>(inRun, s). length s)"
    using \<open>leading_space s \<noteq> 0\<close> by simp
qed simp_all

declare collapseUnicode.simps [simp del]

definition normalizeUnicodeSpace :: "string \<Rightarrow> string" where
  "normalizeUnicodeSpace s = TrimSpace (collapseUnicode False s)"

declare TrimLeft.simps [simp del] TrimRight.simps [simp del]

subsection \<open>Properties of the Text Normalizer\<close>

lemma run_whitespace_space:
  assumes "is_space c"
  shows "\<exists>more. run whitespaceRegex (c # cs, []) = (dropWhile is_space cs, []) # more"
proof -
  let ?k = "length (takeWhile is_space cs)"
  have "rev [1..<Suc (Suc ?k)] = Suc ?k # rev [1..<Suc ?k]" by simp
  moreover have "drop ?k cs = dropWhile is_space cs"
    by (metis append_eq_conv_conj takeWhile_dropWhile_id)
  ultimately show ?thesis using assms by (simp add: whitespaceRegex_def Let_def)
qed

lemma run_whitespace_other:
  assumes "\<not> is_space c"
  shows "run whitespaceRegex (c # cs, []) = []"
  using assms by (simp add: whitespaceRegex_def)

lemma Replace_ws_space:
  assumes "is_space c"
  shows "ReplaceAllString whitespaceRegex (c # cs) repl =
           repl @ ReplaceAllString whitespaceRegex (dropWhile is_space cs) repl"
proof -
  obtain more where "run whitespaceRegex (c # cs, []) = (dropWhile is_space cs, []) # more"
    using run_whitespace_space[OF assms] by blast
  moreover have "length (dropWhile is_space cs) < length (c # cs)"
    using length_dropWhile_le[of is_space cs] by simp
  ultimately show ?thesis by (simp del: run.simps)
qed

lemma Replace_ws_other:
  assumes "\<not> is_space c"
  shows "ReplaceAllString whitespaceRegex (c # cs) repl = c # ReplaceAllString whitespaceRegex cs repl"
  using run_whitespace_other[OF assms] by (simp del: run.simps)

declare ReplaceAllString.simps(2) [simp del]

lemma Replace_ws_word:
  "\<forall>c \<in> set w. \<not> is_space c \<Longrightarrow>
     ReplaceAllString whitespaceRegex (w @ rest) repl = w @ ReplaceAllString whitespaceRegex rest repl"
  by (induction w) (simp_all add: Replace_ws_other)

lemma Replace_ws_runs:
  "ReplaceAllString whitespaceRegex s '' '' = collapse_runs s"
  unfolding collapse_runs_def
proof (induction is_space s rule: runs.induct)
  case 1
  show ?case by simp
next
  case (2 c cs)
  show ?case
  proof (cases "is_space c")
    case True
    then show ?thesis using 2(1) by (simp add: Replace_ws_space)
  next
    case False
    let ?w = "c # takeWhile (\<lambda>d. \<not> is_space d) cs"
    have w: "\<forall>c \<in> set ?w. \<not> is_space c" using False by (auto dest: set_takeWhileD)
    have "c # cs = ?w @ dropWhile (\<lambda>d. \<not> is_space d) cs" by simp
    then have "ReplaceAllString whitespaceRegex (c # cs) '' '' =
               ?w @ ReplaceAllString whitespaceRegex (dropWhile (\<lambda>d. \<not> is_space d) cs) '' ''"
      using Replace_ws_word[OF w] by metis
    then show ?thesis using False 2(2) by simp
  qed
qed

lemma concat_runs: "concat (runs p s) = s"
  by (induction p s rule: runs.induct) auto

lemma collapsed_Cons_other: "\<not> is_space c \<Longrightarrow> collapsed (c # t) = collapsed t"
  by (cases t) auto

lemma collapsed_Replace: "collapsed (ReplaceAllString whitespaceRegex s '' '')"
proof (induction s rule: length_induct)
  case (1 s)
  show ?case
  proof (cases s)
    case Nil
    then show ?thesis by simp
  next
    case (Cons c cs)
    show ?thesis
    proof (cases "is_space c")
      case False
      have "collapsed (ReplaceAllString whitespaceRegex cs '' '')" using 1 Cons by simp
      then show ?thesis using Cons False by (simp add: Replace_ws_other collapsed_Cons_other)
    next
      case True
      let ?t = "dropWhile is_space cs"
      have "length ?t < length s" using Cons length_dropWhile_le[of is_space cs] by simp
      then have ih: "collapsed (ReplaceAllString whitespaceRegex ?t '' '')" using 1 by blast
      show ?thesis
      proof (cases ?t)
        case Nil
        have "ReplaceAllString whitespaceRegex ?t '' '' = []" unfolding Nil by simp
        then show ?thesis using \<open>s = c # cs\<close> True by (simp add: Replace_ws_space)
      next
        case (Cons d ds)
        then have d: "\<not> is_space d" by (metis hd_dropWhile list.sel(1) list.distinct(1))
        have "ReplaceAllString whitespaceRegex ?t '' '' = d # ReplaceAllString whitespaceRegex ds '' ''"
          using Cons d by (simp add: Replace_ws_other)
        then show ?thesis using \<open>s = c # cs\<close> True ih d by (simp add: Replace_ws_space)
      qed
    qed
  qed
qed

lemma Replace_collapsed: "collapsed t \<Longrightarrow> ReplaceAllString whitespaceRegex t '' '' = t"
proof (induction t rule: collapsed.induct)
  case 1
  then show ?case by simp
next
  case (2 c)
  then show ?case by (cases "is_space c") (simp_all add: Replace_ws_space Replace_ws_other)
next
  case (3 c d cs)
  show ?case
  proof (cases "is_space c")
    case True
    then have "c = CHR '' ''" "\<not> is_space d" using 3(2) by auto
    then show ?thesis using True 3 by (simp add: Replace_ws_space)
  next
    case False
    then show ?thesis using 3 by (simp add: Replace_ws_other)
  qed
qed

lemma collapsed_tl: "collapsed (c # t) \<Longrightarrow> collapsed t"
  by (cases t) auto

lemma collapsed_drop: "collapsed t \<Longrightarrow> collapsed (drop n t)"
proof (induction n arbitrary: t)
  case 0
  then show ?case by simp
next
  case (Suc n)
  then show ?case by (cases t) (auto dest: collapsed_tl)
qed

lemma collapsed_take: "collapsed t \<Longrightarrow> collapsed (take n t)"
proof (induction t arbitrary: n rule: collapsed.induct)
  case 1
  then show ?case by simp
next
  case (2 c)
  then show ?case by (cases n) auto
next
  case (3 c d cs)
  show ?case
  proof (cases n)
    case 0
    then show ?thesis by simp
  next
    case (Suc m)
    have "collapsed (take m (d # cs))" using 3 by simp
    then show ?thesis using Suc 3(2) by (cases m) auto
  qed
qed

lemma TrimLeft_drop: "\<exists>n. TrimLeft s = drop n s"
proof (induction s rule: TrimLeft.induct)
  case (1 s)
  show ?case
  proof (cases "leading_space s = 0")
    case True
    then have "TrimLeft s = drop 0 s" by (simp add: TrimLeft.simps)
    then show ?thesis by blast
  next
    case False
    then obtain n where "TrimLeft (drop (leading_space s) s) = drop n (drop (leading_space s) s)"
      using 1 by blast
    then have "TrimLeft s = drop (n + leading_space s) s"
      using False by (simp add: TrimLeft.simps[of s] add.commute)
    then show ?thesis by blast
  qed
qed

lemma TrimRight_take: "\<exists>n. TrimRight s = take n s"
proof (induction s rule: TrimRight.induct)
  case (1 s)
  show ?case
  proof (cases "trailing_space s = 0")
    case True
    then have "TrimRight s = take (length s) s" by (simp add: TrimRight.simps)
    then show ?thesis by blast
  next
    case False
    then obtain n where "TrimRight (take (length s - trailing_space s) s) = take n (take (length s - trailing_space s) s)"
      using 1 by blast
    then have "TrimRight s = take (min n (length s - trailing_space s)) s"
      using False by (simp add: TrimRight.simps[of s])
    then show ?thesis by blast
  qed
qed

lemma collapsed_TrimSpace:
  assumes "collapsed t"
  shows "collapsed (TrimSpace t)"
proof -
  obtain n where n: "TrimLeft t = drop n t" using TrimLeft_drop by blast
  obtain m where m: "TrimRight (drop n t) = take m (drop n t)" using TrimRight_take by blast
  show ?thesis
    unfolding TrimSpace_def n m using assms by (intro collapsed_take collapsed_drop)
qed

lemma leading_TrimLeft: "leading_space (TrimLeft s) = 0"
  by (induction s rule: TrimLeft.induct) (simp add: TrimLeft.simps)

lemma trailing_TrimRight: "trailing_space (TrimRight s) = 0"
  by (induction s rule: TrimRight.induct) (simp add: TrimRight.simps)

lemma space_encodings_nonempty: "w \<in> set space_encodings \<Longrightarrow> w \<noteq> []"
  by (auto simp: space_encodings_def)

lemma leading_space_0_iff:
  "leading_space s = 0 \<longleftrightarrow> (\<forall>w \<in> set space_encodings. take (length w) s \<noteq> w)"
proof -
  have "leading_space s = 0 \<longleftrightarrow> find (\<lambda>w. take (length w) s = w) space_encodings = None"
  proof (cases "find (\<lambda>w. take (length w) s = w) space_encodings")
    case None
    then show ?thesis by (simp add: leading_space_def)
  next
    case (Some w)
    then have "w \<in> set space_encodings" by (auto simp: find_Some_iff)
    then have "w \<noteq> []" by (rule space_encodings_nonempty)
    then show ?thesis using Some by (simp add: leading_space_def)
  qed
  then show ?thesis by (auto simp: find_None_iff)
qed

lemma leading_space_take:
  assumes "leading_space s = 0"
  shows "leading_space (take n s) = 0"
  unfolding leading_space_0_iff
proof
  fix w assume w: "w \<in> set space_encodings"
  show "take (length w) (take n s) \<noteq> w"
  proof
    assume e: "take (length w) (take n s) = w"
    have "length (take (length w) (take n s)) \<le> n" by simp
    then have "length w \<le> n" unfolding e .
    then have "take (length w) s = w" using e by (simp add: min.absorb1)
    then show False using assms w unfolding leading_space_0_iff by blast
  qed
qed

lemma TrimSpace_idem: "TrimSpace (TrimSpace s) = TrimSpace s"
proof -
  obtain n where n: "TrimRight (TrimLeft s) = take n (TrimLeft s)"
    using TrimRight_take by blast
  have "leading_space (TrimSpace s) = 0"
    unfolding TrimSpace_def n by (rule leading_space_take) (rule leading_TrimLeft)
  then have "TrimLeft (TrimSpace s) = TrimSpace s" by (simp add: TrimLeft.simps)
  moreover have "trailing_space (TrimSpace s) = 0"
    unfolding TrimSpace_def by (rule trailing_TrimRight)
  then have "TrimRight (TrimSpace s) = TrimSpace s" by (simp add: TrimRight.simps)
  ultimately show ?thesis by (simp add: TrimSpace_def)
qed

lemma cleanText_idem: "cleanText (cleanText s) = cleanText s"
proof -
  have "collapsed (cleanText s)"
    unfolding cleanText_def by (rule collapsed_TrimSpace) (rule collapsed_Replace)
  then have "ReplaceAllString whitespaceRegex (cleanText s) '' '' = cleanText s"
    by (rule Replace_collapsed)
  then have "cleanText (cleanText s) = TrimSpace (cleanText s)"
    by (simp add: cleanText_def)
  then show ?thesis by (simp add: cleanText_def TrimSpace_idem)
qed

lemma runs_nonempty: "g \<in> set (runs p s) \<Longrightarrow> g \<noteq> []"
  by (induction p s rule: runs.induct) (auto split: if_splits)

lemma runs_same_class: "g \<in> set (runs p s) \<Longrightarrow> c \<in> set g \<Longrightarrow> p c = p (hd g)"
  by (induction p s rule: runs.induct) (auto split: if_splits dest: set_takeWhileD)

lemma runs_hd_class: "runs p s = g # gs \<Longrightarrow> p (hd g) = p (hd s)"
  by (cases s) (auto split: if_splits)

lemma runs_alternate: "distinct_adj (map (\<lambda>g. p (hd g)) (runs p s))"
proof (induction p s rule: runs.induct)
  case (1 p)
  show ?case by simp
next
  case (2 p c cs)
  show ?case
  proof (cases "p c")
    case True
    show ?thesis
    proof (cases "runs p (dropWhile p cs)")
      case Nil
      then show ?thesis using True by simp
    next
      case (Cons g gs)
      then have "runs p (dropWhile p cs) \<noteq> []" by simp
      then have "dropWhile p cs \<noteq> []" by (metis runs.simps(1))
      then have "\<not> p (hd (dropWhile p cs))" by (rule hd_dropWhile)
      then have "\<not> p (hd g)" using runs_hd_class[OF Cons] by simp
      then show ?thesis using True 2(1) Cons by (simp add: distinct_adj_Cons)
    qed
  next
    case False
    show ?thesis
    proof (cases "runs p (dropWhile (\<lambda>d. \<not> p d) cs)")
      case Nil
      then show ?thesis using False by simp
    next
      case (Cons g gs)
      then have "runs p (dropWhile (\<lambda>d. \<not> p d) cs) \<noteq> []" by simp
      then have "dropWhile (\<lambda>d. \<not> p d) cs \<noteq> []" by (metis runs.simps(1))
      then have "\<not> \<not> p (hd (dropWhile (\<lambda>d. \<not> p d) cs))" by (rule hd_dropWhile)
      then have "p (hd g)" using runs_hd_class[OF Cons] by simp
      then show ?thesis using False 2(2) Cons by (simp add: distinct_adj_Cons)
    qed
  qed
qed

lemma is_space_encoding: "is_space c \<Longrightarrow> [c] \<in> set space_encodings"
  by (auto simp: is_space_def space_encodings_def)

lemma trailing_space_0_iff:
  "trailing_space s = 0 \<longleftrightarrow> (\<forall>w \<in> set space_encodings. drop (length s - length w) s \<noteq> w)"
proof -
  have "trailing_space s = 0 \<longleftrightarrow> find (\<lambda>w. drop (length s - length w) s = w) space_encodings = None"
  proof (cases "find (\<lambda>w. drop (length s - length w) s = w) space_encodings")
    case None
    then show ?thesis by (simp add: trailing_space_def)
  next
    case (Some w)
    then have "w \<in> set space_encodings" by (auto simp: find_Some_iff)
    then have "w \<noteq> []" by (rule space_encodings_nonempty)
    then show ?thesis using Some by (simp add: trailing_space_def)
  qed
  then show ?thesis by (auto simp: find_None_iff)
qed

lemma no_leading_space_char:
  assumes "leading_space t = 0" "t \<noteq> []"
  shows "\<not> is_space (hd t)"
proof
  assume "is_space (hd t)"
  then have "[hd t] \<in> set space_encodings" by (rule is_space_encoding)
  moreover have "take (length [hd t]) t = [hd t]" using assms(2) by (cases t) auto
  ultimately show False using assms(1) unfolding leading_space_0_iff by blast
qed

lemma no_trailing_space_char:
  assumes "trailing_space t = 0" "t \<noteq> []"
  shows "\<not> is_space (last t)"
proof
  assume "is_space (last t)"
  then have "[last t] \<in> set space_encodings" by (rule is_space_encoding)
  moreover have "drop (length t - length [last t]) t = [last t]"
    using assms(2) by (induction t rule: rev_induct) auto
  ultimately show False using assms(1) unfolding trailing_space_0_iff by blast
qed

lemma leading_cleanText: "leading_space (cleanText s) = 0"
proof -
  obtain n where n: "TrimRight (TrimLeft (ReplaceAllString whitespaceRegex s '' ''))
                     = take n (TrimLeft (ReplaceAllString whitespaceRegex s '' ''))"
    using TrimRight_take by blast
  show ?thesis
    unfolding cleanText_def TrimSpace_def n by (rule leading_space_take) (rule leading_TrimLeft)
qed

lemma trailing_cleanText: "trailing_space (cleanText s) = 0"
  unfolding cleanText_def TrimSpace_def by (rule trailing_TrimRight)

text \<open>The table of \<^verbatim>\<open>TestCleanText\<close>, run on the model.\<close>

lemma cleanText_test_table:
  "cleanText ''  hello  world  '' = ''hello world''"
  "cleanText (''hello'' @ [CHR 0x0A, CHR 0x0A] @ ''world'') = ''hello world''"
  "cleanText ''  multiple   spaces  '' = ''multiple spaces''"
  "cleanText ''normal text'' = ''normal text''"
  by code_simp+

text \<open>
  Claim C8, as the code has it. \<open>cleanText\<close> is idempotent. It is a total function
  with no error result: it replaces every maximal run of the class \<^verbatim>\<open>\s\<close> of the
  regular expression (space, tab, newline, form feed, carriage return) by a single space,
  and then trims, at both ends, the larger class of \<^verbatim>\<open>strings.TrimSpace\<close> (every rune
  of \<^verbatim>\<open>unicode.IsSpace\<close>, which adds the vertical tab, U+0085, U+00A0 and the other
  Unicode spaces). The result neither begins nor ends with a rune of the larger class,
  and its only characters of the class \<^verbatim>\<open>\s\<close> are single spaces between other
  characters.
\<close>

theorem cleanText_idempotent_normal_form:
  "cleanText (cleanText s) = cleanText s \<and>
   cleanText s = TrimSpace (collapse_runs s) \<and>
   collapsed (cleanText s) \<and>
   leading_space (cleanText s) = 0 \<and> trailing_space (cleanText s) = 0 \<and>
   (cleanText s \<noteq> [] \<longrightarrow> \<not> is_space (hd (cleanText s)) \<and> \<not> is_space (last (cleanText s)))"
proof (intro conjI impI)
  show "cleanText (cleanText s) = cleanText s" by (rule cleanText_idem)
  show "cleanText s = TrimSpace (collapse_runs s)"
    by (simp add: cleanText_def Replace_ws_runs)
  show "collapsed (cleanText s)"
    unfolding cleanText_def by (rule collapsed_TrimSpace) (rule collapsed_Replace)
  show "leading_space (cleanText s) = 0" by (rule leading_cleanText)
  show "trailing_space (cleanText s) = 0" by (rule trailing_cleanText)
next
  assume "cleanText s \<noteq> []"
  then show "\<not> is_space (hd (cleanText s))"
    using no_leading_space_char[OF leading_cleanText] by blast
next
  assume "cleanText s \<noteq> []"
  then show "\<not> is_space (last (cleanText s))"
    using no_trailing_space_char[OF trailing_cleanText] by blast
qed

theorem cleanText_idempotent_normal_form_witness:
  "cleanText ''  hello  world  '' = ''hello world'' \<and>
   cleanText (cleanText ''  hello  world  '') = cleanText ''  hello  world  '' \<and>
   cleanText ''  hello  world  '' = TrimSpace (collapse_runs ''  hello  world  '') \<and>
   collapse_runs ''  hello  world  '' = '' hello world '' \<and>
   \<not> is_space (hd (cleanText ''  hello  world  '')) \<and>
   \<not> is_space (last (cleanText ''  hello  world  ''))"
proof -
  have 1: "cleanText ''  hello  world  '' = ''hello world''" by code_simp
  have 2: "collapse_runs ''  hello  world  '' = '' hello world ''" by code_simp
  have 3: "cleanText ''  hello  world  '' \<noteq> []" unfolding 1 by simp
  show ?thesis
    using cleanText_idempotent_normal_form[of "''  hello  world  ''"] 1 2 3 by blast
qed

text \<open>
  The claim as written uses one word, whitespace, for the runs and for the trimming.
  With either class for both, the function it describes is not \<open>cleanText\<close>: two
  no-break spaces (U+00A0) between letters are a run of Unicode whitespace that the code
  leaves as it is, and a leading no-break space, which is not in \<^verbatim>\<open>\s\<close>, is trimmed.
\<close>

theorem cleanText_one_whitespace_class_counterexample:
  "cleanText [CHR ''A'', CHR 0xC2, CHR 0xA0, CHR 0xC2, CHR 0xA0, CHR ''B'']
     = [CHR ''A'', CHR 0xC2, CHR 0xA0, CHR 0xC2, CHR 0xA0, CHR ''B''] \<and>
   normalizeUnicodeSpace [CHR ''A'', CHR 0xC2, CHR 0xA0, CHR 0xC2, CHR 0xA0, CHR ''B''] = ''A B'' \<and>
   cleanText [CHR 0xC2, CHR 0xA0, CHR ''A''] = ''A'' \<and>
   normalizeRegexpSpace [CHR 0xC2, CHR 0xA0, CHR ''A''] = [CHR 0xC2, CHR 0xA0, CHR ''A'']"
  by code_simp

section \<open>The Feed Parser\<close>

text \<open>
  The structures of \<^verbatim>\<open>internal/arxiv/parser.go\<close> and of the \<^verbatim>\<open>models\<close> package,
  field by field (a field \<^verbatim>\<open>Entry.ID\<close> is \<open>Entry_ID\<close>). A \<^verbatim>\<open>time.Time\<close> is an
  instant, counted in seconds from Go's zero time; \<^verbatim>\<open>time.Time{}\<close> is \<open>0\<close>.
  \<^verbatim>\<open>time.Parse\<close> belongs to Go's library: the functions that call it take it as the
  parameter \<open>Parse\<close> (layout, then value; \<open>None\<close> when it returns an error), so every
  theorem holds whatever \<^verbatim>\<open>time.Parse\<close> accepts. \<open>exampleParse\<close> is a stand-in that
  accepts one timestamp, for the concrete examples.

  \<open>ToPapers\<close> returns the papers, its error (always \<^verbatim>\<open>nil\<close>) and the warnings it
  prints, each with the index of the entry.
\<close>

type_synonym Time = int

record Author =
  Author_Name :: string

record Link =
  Link_Href :: string
  Link_Rel :: string
  Link_Type :: string
  Link_Title :: string

record Category =
  Category_Term :: string
  Category_Scheme :: string

record Entry =
  Entry_ID :: string
  Entry_Title :: string
  Entry_Summary :: string
  Entry_Published :: string
  Entry_Updated :: string
  Entry_Authors :: "Author list"
  Entry_Links :: "Link list"
  Entry_Categories :: "Category list"

record Feed =
  Feed_Title :: string
  Feed_ID :: string
  Feed_Updated :: string
  Feed_Entries :: "Entry list"

record Tag =
  Tag_ID :: int
  Tag_Name :: string

record Paper =
  Paper_ID :: string
  Paper_Title :: string
  Paper_Abstract :: string
  Paper_Authors :: string
  Paper_Categories :: string
  Paper_PublishedAt :: Time
  Paper_UpdatedAt :: Time
  Paper_PDFUrl :: string
  Paper_ArxivUrl :: string
  Paper_CreatedAt :: Time
  Paper_InLibrary :: bool
  Paper_IsRead :: bool
  Paper_Tags :: "Tag list"

datatype error =
    ExtractIDError string
  | ParseTimeError string
  | PublishedError error
  | UpdatedError error
  | DecodeError string
  | ExecuteRequestError string
  | StatusError nat string
  | ParseFeedError error
  | ExecError string

definition RFC3339 :: string where
  "RFC3339 = ''2006-01-02T15:04:05Z07:00''"

definition formats :: "string list" where
  "formats = [RFC3339, ''2006-01-02T15:04:05Z'', ''2006-01-02T15:04:05-07:00'']"

fun tryFormats :: "(string \<Rightarrow> string \<Rightarrow> Time option) \<Rightarrow> string list \<Rightarrow> string \<Rightarrow> error + Time" where
  "tryFormats Parse [] timeStr = Inl (ParseTimeError timeStr)"
| "tryFormats Parse (format # rest) timeStr =
     (case Parse format timeStr of
        Some t \<Rightarrow> Inr t
      | None \<Rightarrow> tryFormats Parse rest timeStr)"

definition parseTime :: "(string \<Rightarrow> string \<Rightarrow> Time option) \<Rightarrow> string \<Rightarrow> error + Time" where
  "parseTime Parse timeStr = tryFormats Parse formats timeStr"

fun Join :: "string list \<Rightarrow> string \<Rightarrow> string" where
  "Join [] sep = []"
| "Join [x] sep = x"
| "Join (x # y # ys) sep = x @ sep @ Join (y # ys) sep"

definition scanLinks :: "Link list \<Rightarrow> string \<times> string" where
  "scanLinks links =
     foldl (\<lambda>(pdfURL, arxivURL) link.
              if Link_Title link = ''pdf'' then (Link_Href link, arxivURL)
              else if Link_Rel link = ''alternate'' then (pdfURL, Link_Href link)
              else (pdfURL, arxivURL))
           ([], []) links"

definition ToPaper :: "(string \<Rightarrow> string \<Rightarrow> Time option) \<Rightarrow> Entry \<Rightarrow> error + Paper" where
  "ToPaper Parse e =
     (let arxivID = extractArxivID (Entry_ID e) in
      if arxivID = [] then Inl (ExtractIDError (Entry_ID e))
      else case parseTime Parse (Entry_Published e) of
        Inl err \<Rightarrow> Inl (PublishedError err)
      | Inr publishedAt \<Rightarrow>
         (case parseTime Parse (Entry_Updated e) of
            Inl err \<Rightarrow> Inl (UpdatedError err)
          | Inr updatedAt \<Rightarrow>
             (let authors = map (\<lambda>author. TrimSpace (Author_Name author)) (Entry_Authors e);
                  categories = map Category_Term (Entry_Categories e);
                  (pdfURL, arxivURL) = scanLinks (Entry_Links e);
                  title = cleanText (Entry_Title e);
                  abstract = cleanText (Entry_Summary e)
              in Inr \<lparr> Paper_ID = arxivID,
                       Paper_Title = title,
                       Paper_Abstract = abstract,
                       Paper_Authors = Join authors '', '',
                       Paper_Categories = Join categories '', '',
                       Paper_PublishedAt = publishedAt,
                       Paper_UpdatedAt = updatedAt,
                       Paper_PDFUrl = pdfURL,
                       Paper_ArxivUrl = arxivURL,
                       Paper_CreatedAt = 0,
                       Paper_InLibrary = False,
                       Paper_IsRead = False,
                       Paper_Tags = [] \<rparr>)))"

fun convertEntries ::
  "(string \<Rightarrow> string \<Rightarrow> Time option) \<Rightarrow> nat \<Rightarrow> Entry list \<Rightarrow> Paper list \<times> (nat \<times> error) list" where
  "convertEntries Parse i [] = ([], [])"
| "convertEntries Parse i (entry # rest) =
     (let (papers, warnings) = convertEntries Parse (Suc i) rest
      in case ToPaper Parse entry of
           Inl err \<Rightarrow> (papers, (i, err) # warnings)
         | Inr paper \<Rightarrow> (paper # papers, warnings))"

definition ToPapers ::
  "(string \<Rightarrow> string \<Rightarrow> Time option) \<Rightarrow> Feed \<Rightarrow> Paper list \<times> error option \<times> (nat \<times> error) list" where
  "ToPapers Parse f =
     (let (papers, warnings) = convertEntries Parse 0 (Feed_Entries f)
      in (papers, None, warnings))"

definition exampleParse :: "string \<Rightarrow> string \<Rightarrow> Time option" where
  "exampleParse layout v =
     (if layout = RFC3339 \<and> v = ''2023-01-25T12:00:00Z'' then Some 63810244800 else None)"

definition lastHref :: "(Link \<Rightarrow> bool) \<Rightarrow> Link list \<Rightarrow> string" where
  "lastHref P links = (case find P (rev links) of None \<Rightarrow> [] | Some l \<Rightarrow> Link_Href l)"

definition firstHref :: "(Link \<Rightarrow> bool) \<Rightarrow> Link list \<Rightarrow> string" where
  "firstHref P links = (case find P links of None \<Rightarrow> [] | Some l \<Rightarrow> Link_Href l)"

definition converted :: "(string \<Rightarrow> string \<Rightarrow> Time option) \<Rightarrow> Entry list \<Rightarrow> Paper list" where
  "converted Parse es =
     List.map_filter (\<lambda>e. case ToPaper Parse e of Inl err \<Rightarrow> None | Inr p \<Rightarrow> Some p) es"

definition sampleEntry :: Entry where
  "sampleEntry =
     \<lparr> Entry_ID = ''http://arxiv.org/abs/2301.12345v1'',
       Entry_Title = ''  Test   Paper  Title  '',
       Entry_Summary = ''  This is a'' @ [CHR 0x0A] @ ''  test abstract.  '',
       Entry_Published = ''2023-01-25T12:00:00Z'',
       Entry_Updated = ''2023-01-25T12:00:00Z'',
       Entry_Authors = [\<lparr>Author_Name = ''John Doe''\<rparr>, \<lparr>Author_Name = ''Jane Smith''\<rparr>],
       Entry_Links =
         [\<lparr>Link_Href = ''http://arxiv.org/abs/2301.12345v1'', Link_Rel = ''alternate'',
           Link_Type = [], Link_Title = []\<rparr>,
          \<lparr>Link_Href = ''http://arxiv.org/pdf/2301.12345v1'', Link_Rel = [],
           Link_Type = [], Link_Title = ''pdf''\<rparr>],
       Entry_Categories =
         [\<lparr>Category_Term = ''cs.AI'', Category_Scheme = []\<rparr>,
          \<lparr>Category_Term = ''cs.LG'', Category_Scheme = []\<rparr>] \<rparr>"

definition samplePaper :: Paper where
  "samplePaper =
     \<lparr> Paper_ID = ''2301.12345'',
       Paper_Title = ''Test Paper Title'',
       Paper_Abstract = ''This is a test abstract.'',
       Paper_Authors = ''John Doe, Jane Smith'',
       Paper_Categories = ''cs.AI, cs.LG'',
       Paper_PublishedAt = 63810244800,
       Paper_UpdatedAt = 63810244800,
       Paper_PDFUrl = ''http://arxiv.org/pdf/2301.12345v1'',
       Paper_ArxivUrl = ''http://arxiv.org/abs/2301.12345v1'',
       Paper_CreatedAt = 0,
       Paper_InLibrary = False,
       Paper_IsRead = False,
       Paper_Tags = [] \<rparr>"

definition emptyFeed :: Feed where
  "emptyFeed = \<lparr>Feed_Title = [], Feed_ID = [], Feed_Updated = [], Feed_Entries = []\<rparr>"

definition isPDF :: "Link \<Rightarrow> bool" where
  "isPDF link = (Link_Title link = ''pdf'')"

definition isAlternate :: "Link \<Rightarrow> bool" where
  "isAlternate link = (Link_Rel link = ''alternate'')"

definition twoPdfLinks :: "Link list" where
  "twoPdfLinks =
     [\<lparr>Link_Href = ''http://arxiv.org/pdf/2301.12345v1'', Link_Rel = ''related'',
       Link_Type = ''application/pdf'', Link_Title = ''pdf''\<rparr>,
      \<lparr>Link_Href = ''http://arxiv.org/pdf/2301.12345v2'', Link_Rel = ''related'',
       Link_Type = ''application/pdf'', Link_Title = ''pdf''\<rparr>]"

subsection \<open>Properties of the conversion\<close>

lemma lastHref_snoc:
  "lastHref P (ls @ [l]) = (if P l then Link_Href l else lastHref P ls)"
  by (simp add: lastHref_def)

lemma scanLinks_snoc:
  "scanLinks (ls @ [l]) =
     (if Link_Title l = ''pdf'' then (Link_Href l, snd (scanLinks ls))
      else if Link_Rel l = ''alternate'' then (fst (scanLinks ls), Link_Href l)
      else scanLinks ls)"
  by (simp add: scanLinks_def split_beta)

lemma scanLinks_last:
  "scanLinks links =
     (lastHref (\<lambda>l. Link_Title l = ''pdf'') links,
      lastHref (\<lambda>l. Link_Title l \<noteq> ''pdf'' \<and> Link_Rel l = ''alternate'') links)"
proof (induction links rule: rev_induct)
  case Nil
  show ?case by (simp add: scanLinks_def lastHref_def)
next
  case (snoc l ls)
  show ?case unfolding scanLinks_snoc lastHref_snoc using snoc by simp
qed

lemma lastHref_none: "\<forall>l \<in> set links. \<not> P l \<Longrightarrow> lastHref P links = []"
  by (simp add: lastHref_def find_None_iff[THEN iffD2])

lemma ToPaper_Inr_iff:
  "ToPaper Parse e = Inr p \<longleftrightarrow>
     extractArxivID (Entry_ID e) \<noteq> [] \<and>
     (\<exists>publishedAt updatedAt.
        parseTime Parse (Entry_Published e) = Inr publishedAt \<and>
        parseTime Parse (Entry_Updated e) = Inr updatedAt \<and>
        p = \<lparr> Paper_ID = extractArxivID (Entry_ID e),
              Paper_Title = cleanText (Entry_Title e),
              Paper_Abstract = cleanText (Entry_Summary e),
              Paper_Authors = Join (map (\<lambda>author. TrimSpace (Author_Name author)) (Entry_Authors e)) '', '',
              Paper_Categories = Join (map Category_Term (Entry_Categories e)) '', '',
              Paper_PublishedAt = publishedAt,
              Paper_UpdatedAt = updatedAt,
              Paper_PDFUrl = fst (scanLinks (Entry_Links e)),
              Paper_ArxivUrl = snd (scanLinks (Entry_Links e)),
              Paper_CreatedAt = 0,
              Paper_InLibrary = False,
              Paper_IsRead = False,
              Paper_Tags = [] \<rparr>)"
  by (auto simp: ToPaper_def Let_def split_beta split: sum.splits)

lemma converted_Nil: "converted Parse [] = []"
  by (simp add: converted_def map_filter_simps)

lemma converted_Cons:
  "converted Parse (e # es) =
     (case ToPaper Parse e of Inl err \<Rightarrow> converted Parse es | Inr p \<Rightarrow> p # converted Parse es)"
  by (simp add: converted_def map_filter_simps split: sum.splits)

lemma converted_append: "converted Parse (es @ es') = converted Parse es @ converted Parse es'"
  by (induction es) (simp_all add: converted_Nil converted_Cons split: sum.splits)

lemma convertEntries_papers: "fst (convertEntries Parse i es) = converted Parse es"
  by (induction es arbitrary: i)
     (simp_all add: converted_Nil converted_Cons split_beta split: sum.splits)

lemma convertEntries_count:
  "length (fst (convertEntries Parse i es)) + length (snd (convertEntries Parse i es)) = length es"
  by (induction es arbitrary: i) (simp_all add: split_beta split: sum.splits)

lemma convertEntries_warnings:
  "(j, err) \<in> set (snd (convertEntries Parse i es)) \<Longrightarrow>
     i \<le> j \<and> j < i + length es \<and> ToPaper Parse (es ! (j - i)) = Inl err"
proof (induction es arbitrary: i)
  case Nil
  then show ?case by simp
next
  case (Cons e es)
  show ?case
  proof (cases "ToPaper Parse e")
    case (Inl err0)
    then have "(j, err) = (i, err0) \<or> (j, err) \<in> set (snd (convertEntries Parse (Suc i) es))"
      using Cons.prems by (simp add: split_beta)
    then show ?thesis
    proof
      assume "(j, err) = (i, err0)"
      then show ?thesis using Inl by simp
    next
      assume "(j, err) \<in> set (snd (convertEntries Parse (Suc i) es))"
      then have "Suc i \<le> j \<and> j < Suc i + length es \<and> ToPaper Parse (es ! (j - Suc i)) = Inl err"
        by (rule Cons.IH)
      moreover from this have "j - i = Suc (j - Suc i)" by linarith
      ultimately show ?thesis by simp
    qed
  next
    case (Inr p)
    then have "(j, err) \<in> set (snd (convertEntries Parse (Suc i) es))"
      using Cons.prems by (simp add: split_beta)
    then have "Suc i \<le> j \<and> j < Suc i + length es \<and> ToPaper Parse (es ! (j - Suc i)) = Inl err"
      by (rule Cons.IH)
    moreover from this have "j - i = Suc (j - Suc i)" by linarith
    ultimately show ?thesis by simp
  qed
qed

lemma ToPapers_papers: "fst (ToPapers Parse f) = converted Parse (Feed_Entries f)"
  using convertEntries_papers[of Parse 0 "Feed_Entries f"] by (simp add: ToPapers_def split_beta)

lemma ToPapers_err: "fst (snd (ToPapers Parse f)) = None"
  by (simp add: ToPapers_def split_beta)

lemma ToPapers_warnings: "snd (snd (ToPapers Parse f)) = snd (convertEntries Parse 0 (Feed_Entries f))"
  by (simp add: ToPapers_def split_beta)

lemma ToPaper_bad_published:
  "parseTime Parse (Entry_Published e) = Inl err \<Longrightarrow> \<exists>err'. ToPaper Parse e = Inl err'"
  by (simp add: ToPaper_def Let_def)

lemma ToPaper_bad_updated:
  "parseTime Parse (Entry_Updated e) = Inl err \<Longrightarrow> \<exists>err'. ToPaper Parse e = Inl err'"
  by (simp add: ToPaper_def Let_def split: sum.splits)

text \<open>
  Claim C3. \<open>ToPapers\<close> converts every entry on its own and never fails: its error
  result is always \<open>None\<close>. The papers it returns are exactly the entries whose
  conversion succeeds, in the order of the feed; every other entry is skipped with one
  warning that carries its index and its error. So an entry that fails (a malformed
  identifier, an unparseable timestamp) changes nothing for the entries around it, and
  a feed of two entries, the first with an unparseable timestamp and the second
  well-formed, yields exactly one paper.
\<close>

theorem ToPapers_converted_subset:
  "fst (ToPapers Parse f) = converted Parse (Feed_Entries f) \<and>
   fst (snd (ToPapers Parse f)) = None \<and>
   length (fst (ToPapers Parse f)) + length (snd (snd (ToPapers Parse f))) = length (Feed_Entries f) \<and>
   ((i, err) \<in> set (snd (snd (ToPapers Parse f)))
      \<longrightarrow> i < length (Feed_Entries f) \<and> ToPaper Parse (Feed_Entries f ! i) = Inl err) \<and>
   (ToPaper Parse e = Inl err' \<longrightarrow>
      fst (ToPapers Parse (f\<lparr>Feed_Entries := es @ e # es'\<rparr>)) = converted Parse es @ converted Parse es') \<and>
   ((parseTime Parse (Entry_Published e1) = Inl err1 \<or> parseTime Parse (Entry_Updated e1) = Inl err1) \<and>
    ToPaper Parse e2 = Inr p2
      \<longrightarrow> fst (ToPapers Parse (f\<lparr>Feed_Entries := [e1, e2]\<rparr>)) = [p2] \<and>
          length (fst (ToPapers Parse (f\<lparr>Feed_Entries := [e1, e2]\<rparr>))) = 1)"
proof (intro conjI impI)
  show "fst (ToPapers Parse f) = converted Parse (Feed_Entries f)" by (rule ToPapers_papers)
  show "fst (snd (ToPapers Parse f)) = None" by (rule ToPapers_err)
  show "length (fst (ToPapers Parse f)) + length (snd (snd (ToPapers Parse f))) = length (Feed_Entries f)"
    using convertEntries_count[of Parse 0 "Feed_Entries f"] by (simp add: ToPapers_def split_beta)
next
  assume "(i, err) \<in> set (snd (snd (ToPapers Parse f)))"
  then have w: "0 \<le> i \<and> i < 0 + length (Feed_Entries f) \<and> ToPaper Parse (Feed_Entries f ! (i - 0)) = Inl err"
    unfolding ToPapers_warnings by (rule convertEntries_warnings)
  show "i < length (Feed_Entries f)" using w by simp
  show "ToPaper Parse (Feed_Entries f ! i) = Inl err" using w by simp
next
  assume "ToPaper Parse e = Inl err'"
  then show "fst (ToPapers Parse (f\<lparr>Feed_Entries := es @ e # es'\<rparr>)) = converted Parse es @ converted Parse es'"
    by (simp add: ToPapers_papers converted_append converted_Cons)
next
  assume h: "(parseTime Parse (Entry_Published e1) = Inl err1 \<or> parseTime Parse (Entry_Updated e1) = Inl err1) \<and>
    ToPaper Parse e2 = Inr p2"
  then obtain err' where "ToPaper Parse e1 = Inl err'"
    using ToPaper_bad_published ToPaper_bad_updated by blast
  then have r: "fst (ToPapers Parse (f\<lparr>Feed_Entries := [e1, e2]\<rparr>)) = [p2]"
    using h by (simp add: ToPapers_papers converted_Cons converted_Nil)
  show "fst (ToPapers Parse (f\<lparr>Feed_Entries := [e1, e2]\<rparr>)) = [p2]" by (rule r)
  show "length (fst (ToPapers Parse (f\<lparr>Feed_Entries := [e1, e2]\<rparr>))) = 1" using r by simp
qed

lemma ToPaper_sampleEntry: "ToPaper exampleParse sampleEntry = Inr samplePaper"
  by code_simp

lemma parseTime_example_bad: "parseTime exampleParse ''yesterday'' = Inl (ParseTimeError ''yesterday'')"
  by code_simp

theorem ToPapers_converted_subset_witness:
  "fst (ToPapers exampleParse
         (emptyFeed\<lparr>Feed_Entries := [sampleEntry\<lparr>Entry_Published := ''yesterday''\<rparr>, sampleEntry]\<rparr>))
     = [samplePaper] \<and>
   length (fst (ToPapers exampleParse
         (emptyFeed\<lparr>Feed_Entries := [sampleEntry\<lparr>Entry_Published := ''yesterday''\<rparr>, sampleEntry]\<rparr>)))
     = 1 \<and>
   fst (snd (ToPapers exampleParse emptyFeed)) = None"
proof -
  let ?bad = "sampleEntry\<lparr>Entry_Published := ''yesterday''\<rparr>"
  have b: "parseTime exampleParse (Entry_Published ?bad) = Inl (ParseTimeError ''yesterday'')"
    using parseTime_example_bad by simp
  show ?thesis
    using ToPapers_converted_subset[of exampleParse emptyFeed 0 "ParseTimeError []"
            ?bad "ParseTimeError []" "[]" "[]"
            ?bad "ParseTimeError ''yesterday''" sampleEntry samplePaper]
          b ToPaper_sampleEntry
    by blast
qed

lemma scanLinks_roles:
  "scanLinks links = (lastHref isPDF links, lastHref (\<lambda>l. \<not> isPDF l \<and> isAlternate l) links)"
  unfolding scanLinks_last isPDF_def isAlternate_def ..

lemma find_app: "find P (xs @ ys) = (case find P xs of None \<Rightarrow> find P ys | Some x \<Rightarrow> Some x)"
  by (induction xs) simp_all

lemma find_rev_unique:
  "length (filter P xs) \<le> 1 \<Longrightarrow> find P (rev xs) = find P xs"
proof (induction xs)
  case Nil
  show ?case by simp
next
  case (Cons x xs)
  show ?case
  proof (cases "P x")
    case True
    then have "filter P xs = []" using Cons.prems by simp
    then have "find P (rev xs) = None" by (simp add: find_None_iff filter_empty_conv)
    then show ?thesis using True by (simp add: find_app)
  next
    case False
    then have "find P (rev xs) = find P xs" using Cons by simp
    then show ?thesis using False by (simp add: find_app split: option.splits)
  qed
qed

lemma ToPaper_links_irrelevant:
  "ToPaper Parse e = Inr p \<Longrightarrow> \<exists>p'. ToPaper Parse (e\<lparr>Entry_Links := links\<rparr>) = Inr p'"
  unfolding ToPaper_Inr_iff by auto

text \<open>
  Claim C4, as the code has it. The loop over the links has no \<^verbatim>\<open>break\<close>: each link
  titled \<^verbatim>\<open>pdf\<close> overwrites \<open>pdfURL\<close>, and each other link whose \<^verbatim>\<open>rel\<close> is
  \<^verbatim>\<open>alternate\<close> overwrites \<open>arxivURL\<close>. So the last link of each role is the one
  kept (the first only when at most one link has the role); the links never make the
  conversion fail, and with no link of either role both fields are empty strings.
\<close>

theorem ToPaper_links_last_match:
  "(ToPaper Parse e = Inr p \<longrightarrow>
      Paper_PDFUrl p = lastHref isPDF (Entry_Links e) \<and>
      Paper_ArxivUrl p = lastHref (\<lambda>l. \<not> isPDF l \<and> isAlternate l) (Entry_Links e)) \<and>
   (length (filter isPDF links) \<le> 1 \<longrightarrow> lastHref isPDF links = firstHref isPDF links) \<and>
   (length (filter (\<lambda>l. \<not> isPDF l \<and> isAlternate l) links) \<le> 1 \<longrightarrow>
      lastHref (\<lambda>l. \<not> isPDF l \<and> isAlternate l) links = firstHref (\<lambda>l. \<not> isPDF l \<and> isAlternate l) links) \<and>
   (ToPaper Parse e = Inr p \<longrightarrow> (\<exists>p'. ToPaper Parse (e\<lparr>Entry_Links := links\<rparr>) = Inr p')) \<and>
   (ToPaper Parse e = Inr p \<and> (\<forall>l \<in> set (Entry_Links e). \<not> isPDF l \<and> \<not> isAlternate l) \<longrightarrow>
      Paper_PDFUrl p = [] \<and> Paper_ArxivUrl p = [])"
proof (intro conjI impI)
  assume "ToPaper Parse e = Inr p"
  then have "Paper_PDFUrl p = fst (scanLinks (Entry_Links e)) \<and> Paper_ArxivUrl p = snd (scanLinks (Entry_Links e))"
    unfolding ToPaper_Inr_iff by auto
  then show "Paper_PDFUrl p = lastHref isPDF (Entry_Links e)"
        and "Paper_ArxivUrl p = lastHref (\<lambda>l. \<not> isPDF l \<and> isAlternate l) (Entry_Links e)"
    by (simp_all add: scanLinks_roles)
next
  assume "length (filter isPDF links) \<le> 1"
  then show "lastHref isPDF links = firstHref isPDF links"
    by (simp add: lastHref_def firstHref_def find_rev_unique)
next
  assume "length (filter (\<lambda>l. \<not> isPDF l \<and> isAlternate l) links) \<le> 1"
  then show "lastHref (\<lambda>l. \<not> isPDF l \<and> isAlternate l) links = firstHref (\<lambda>l. \<not> isPDF l \<and> isAlternate l) links"
    by (simp add: lastHref_def firstHref_def find_rev_unique)
next
  assume "ToPaper Parse e = Inr p"
  then show "\<exists>p'. ToPaper Parse (e\<lparr>Entry_Links := links\<rparr>) = Inr p'"
    by (rule ToPaper_links_irrelevant)
next
  assume h: "ToPaper Parse e = Inr p \<and> (\<forall>l \<in> set (Entry_Links e). \<not> isPDF l \<and> \<not> isAlternate l)"
  then have "Paper_PDFUrl p = fst (scanLinks (Entry_Links e)) \<and> Paper_ArxivUrl p = snd (scanLinks (Entry_Links e))"
    unfolding ToPaper_Inr_iff by auto
  moreover have "lastHref isPDF (Entry_Links e) = []"
    using h by (intro lastHref_none) simp
  moreover have "lastHref (\<lambda>l. \<not> isPDF l \<and> isAlternate l) (Entry_Links e) = []"
    using h by (intro lastHref_none) simp
  ultimately show "Paper_PDFUrl p = []" and "Paper_ArxivUrl p = []"
    by (simp_all add: scanLinks_roles)
qed

theorem ToPaper_links_last_match_witness:
  "Paper_PDFUrl samplePaper = lastHref isPDF (Entry_Links sampleEntry) \<and>
   Paper_PDFUrl samplePaper = ''http://arxiv.org/pdf/2301.12345v1'' \<and>
   Paper_ArxivUrl samplePaper = lastHref (\<lambda>l. \<not> isPDF l \<and> isAlternate l) (Entry_Links sampleEntry) \<and>
   Paper_ArxivUrl samplePaper = ''http://arxiv.org/abs/2301.12345v1'' \<and>
   lastHref isPDF (Entry_Links sampleEntry) = firstHref isPDF (Entry_Links sampleEntry) \<and>
   (\<exists>p'. ToPaper exampleParse (sampleEntry\<lparr>Entry_Links := []\<rparr>) = Inr p') \<and>
   ToPaper exampleParse (sampleEntry\<lparr>Entry_Links := []\<rparr>)
     = Inr (samplePaper\<lparr>Paper_PDFUrl := [], Paper_ArxivUrl := []\<rparr>)"
proof -
  have 1: "length (filter isPDF (Entry_Links sampleEntry)) \<le> 1"
    by (simp add: sampleEntry_def isPDF_def)
  have 2: "Paper_PDFUrl samplePaper = ''http://arxiv.org/pdf/2301.12345v1''"
          "Paper_ArxivUrl samplePaper = ''http://arxiv.org/abs/2301.12345v1''"
    by (simp_all add: samplePaper_def)
  have 3: "ToPaper exampleParse (sampleEntry\<lparr>Entry_Links := []\<rparr>)
     = Inr (samplePaper\<lparr>Paper_PDFUrl := [], Paper_ArxivUrl := []\<rparr>)"
    by code_simp
  show ?thesis
    using ToPaper_links_last_match[of exampleParse sampleEntry samplePaper "Entry_Links sampleEntry"]
          ToPaper_links_last_match[of exampleParse sampleEntry samplePaper "[]"]
          ToPaper_sampleEntry 1 2 3
    by blast
qed

text \<open>
  The claim as written fails on an entry with two links titled \<^verbatim>\<open>pdf\<close>: the second
  one becomes \<open>pdfUrl\<close>, not the first.
\<close>

theorem ToPaper_first_pdf_link_counterexample:
  "ToPaper exampleParse (sampleEntry\<lparr>Entry_Links := twoPdfLinks\<rparr>)
     = Inr (samplePaper\<lparr>Paper_PDFUrl := ''http://arxiv.org/pdf/2301.12345v2'', Paper_ArxivUrl := []\<rparr>) \<and>
   firstHref isPDF twoPdfLinks = ''http://arxiv.org/pdf/2301.12345v1'' \<and>
   ''http://arxiv.org/pdf/2301.12345v2'' \<noteq> firstHref isPDF twoPdfLinks"
  by code_simp

lemma tryFormats_first:
  "i < length fs \<Longrightarrow> Parse (fs ! i) s = Some t \<Longrightarrow> (\<forall>j < i. Parse (fs ! j) s = None) \<Longrightarrow>
     tryFormats Parse fs s = Inr t"
proof (induction fs arbitrary: i)
  case Nil
  then show ?case by simp
next
  case (Cons f fs)
  show ?case
  proof (cases i)
    case 0
    then show ?thesis using Cons.prems by simp
  next
    case (Suc k)
    have "Parse f s = None" using Cons.prems(3) Suc by fastforce
    moreover have "tryFormats Parse fs s = Inr t"
    proof (rule Cons.IH[of k])
      show "k < length fs" using Cons.prems(1) Suc by simp
      show "Parse (fs ! k) s = Some t" using Cons.prems(2) Suc by simp
      show "\<forall>j<k. Parse (fs ! j) s = None"
      proof (intro allI impI)
        fix j assume "j < k"
        then have "Suc j < i" using Suc by simp
        then have "Parse ((f # fs) ! Suc j) s = None" using Cons.prems(3) by blast
        then show "Parse (fs ! j) s = None" by simp
      qed
    qed
    ultimately show ?thesis by simp
  qed
qed

lemma tryFormats_none:
  "(\<forall>j < length fs. Parse (fs ! j) s = None) \<Longrightarrow> tryFormats Parse fs s = Inl (ParseTimeError s)"
proof (induction fs)
  case Nil
  then show ?case by simp
next
  case (Cons f fs)
  have "Parse f s = None" using Cons.prems by fastforce
  moreover have "\<forall>j < length fs. Parse (fs ! j) s = None"
  proof (intro allI impI)
    fix j assume "j < length fs"
    then have "Parse ((f # fs) ! Suc j) s = None" using Cons.prems by fastforce
    then show "Parse (fs ! j) s = None" by simp
  qed
  ultimately show ?case using Cons.IH by simp
qed

lemma tryFormats_Inl: "tryFormats Parse fs s = Inl err \<Longrightarrow> err = ParseTimeError s \<and> (\<forall>f \<in> set fs. Parse f s = None)"
  by (induction fs) (auto split: option.splits)

text \<open>
  Claim C5. \<open>parseTime\<close> tries three layouts in order: RFC 3339 (a \<^verbatim>\<open>Z\<close> or a
  numeric offset), a literal \<^verbatim>\<open>Z\<close> with no offset, and an explicit numeric offset. The
  first layout that \<^verbatim>\<open>time.Parse\<close> accepts gives the result; when none does the
  result is an error, \<open>ToPaper\<close> fails for that entry (for the published and for the
  updated timestamp alike), and \<open>ToPapers\<close> skips the entry and still converts the
  others without an error of its own. \<^verbatim>\<open>time.Parse\<close> is the parameter \<open>Parse\<close>.
\<close>

theorem parseTime_ordered_formats:
  "formats = [''2006-01-02T15:04:05Z07:00'', ''2006-01-02T15:04:05Z'', ''2006-01-02T15:04:05-07:00''] \<and>
   3 \<le> length formats \<and>
   (i < length formats \<and> Parse (formats ! i) s = Some t \<and> (\<forall>j < i. Parse (formats ! j) s = None)
      \<longrightarrow> parseTime Parse s = Inr t) \<and>
   ((\<forall>j < length formats. Parse (formats ! j) s = None)
      \<longrightarrow> parseTime Parse s = Inl (ParseTimeError s)) \<and>
   (parseTime Parse s = Inl err \<longrightarrow> err = ParseTimeError s \<and> (\<forall>f \<in> set formats. Parse f s = None)) \<and>
   (extractArxivID (Entry_ID e) \<noteq> [] \<and> parseTime Parse (Entry_Published e) = Inl err
      \<longrightarrow> ToPaper Parse e = Inl (PublishedError err)) \<and>
   (extractArxivID (Entry_ID e) \<noteq> [] \<and> parseTime Parse (Entry_Published e) = Inr t \<and>
    parseTime Parse (Entry_Updated e) = Inl err
      \<longrightarrow> ToPaper Parse e = Inl (UpdatedError err)) \<and>
   (parseTime Parse (Entry_Published e) = Inl err \<or> parseTime Parse (Entry_Updated e) = Inl err
      \<longrightarrow> fst (ToPapers Parse (f\<lparr>Feed_Entries := es @ e # es'\<rparr>)) = converted Parse es @ converted Parse es'
          \<and> fst (snd (ToPapers Parse (f\<lparr>Feed_Entries := es @ e # es'\<rparr>))) = None)"
proof (intro conjI impI)
  show "formats = [''2006-01-02T15:04:05Z07:00'', ''2006-01-02T15:04:05Z'', ''2006-01-02T15:04:05-07:00'']"
    by (simp add: formats_def RFC3339_def)
  show "3 \<le> length formats" by (simp add: formats_def)
next
  assume "i < length formats \<and> Parse (formats ! i) s = Some t \<and> (\<forall>j < i. Parse (formats ! j) s = None)"
  then show "parseTime Parse s = Inr t"
    unfolding parseTime_def using tryFormats_first[of i formats Parse s t] by blast
next
  assume "\<forall>j < length formats. Parse (formats ! j) s = None"
  then show "parseTime Parse s = Inl (ParseTimeError s)"
    unfolding parseTime_def by (rule tryFormats_none)
next
  assume "parseTime Parse s = Inl err"
  then have "err = ParseTimeError s \<and> (\<forall>f \<in> set formats. Parse f s = None)"
    unfolding parseTime_def by (rule tryFormats_Inl)
  then show "err = ParseTimeError s" and "\<forall>f \<in> set formats. Parse f s = None" by simp_all
next
  assume "extractArxivID (Entry_ID e) \<noteq> [] \<and> parseTime Parse (Entry_Published e) = Inl err"
  then show "ToPaper Parse e = Inl (PublishedError err)"
    by (simp add: ToPaper_def Let_def)
next
  assume "extractArxivID (Entry_ID e) \<noteq> [] \<and> parseTime Parse (Entry_Published e) = Inr t \<and>
    parseTime Parse (Entry_Updated e) = Inl err"
  then show "ToPaper Parse e = Inl (UpdatedError err)"
    by (simp add: ToPaper_def Let_def)
next
  assume "parseTime Parse (Entry_Published e) = Inl err \<or> parseTime Parse (Entry_Updated e) = Inl err"
  then obtain err' where "ToPaper Parse e = Inl err'"
    using ToPaper_bad_published ToPaper_bad_updated by blast
  then show "fst (ToPapers Parse (f\<lparr>Feed_Entries := es @ e # es'\<rparr>)) = converted Parse es @ converted Parse es'"
    by (simp add: ToPapers_papers converted_append converted_Cons)
next
  show "fst (snd (ToPapers Parse (f\<lparr>Feed_Entries := es @ e # es'\<rparr>))) = None"
    by (rule ToPapers_err)
qed

theorem parseTime_ordered_formats_witness:
  "parseTime exampleParse ''2023-01-25T12:00:00Z'' = Inr 63810244800 \<and>
   parseTime (\<lambda>layout v. if layout = ''2006-01-02T15:04:05-07:00'' then Some 7 else None) ''x'' = Inr 7 \<and>
   parseTime exampleParse ''yesterday'' = Inl (ParseTimeError ''yesterday'') \<and>
   ToPaper exampleParse (sampleEntry\<lparr>Entry_Published := ''yesterday''\<rparr>)
     = Inl (PublishedError (ParseTimeError ''yesterday'')) \<and>
   ToPaper exampleParse (sampleEntry\<lparr>Entry_Updated := ''yesterday''\<rparr>)
     = Inl (UpdatedError (ParseTimeError ''yesterday'')) \<and>
   fst (ToPapers exampleParse
          (emptyFeed\<lparr>Feed_Entries := [sampleEntry] @ sampleEntry\<lparr>Entry_Published := ''yesterday''\<rparr> # [sampleEntry]\<rparr>))
     = converted exampleParse [sampleEntry] @ converted exampleParse [sampleEntry]"
proof -
  let ?P3 = "\<lambda>layout v. if layout = ''2006-01-02T15:04:05-07:00'' then Some (7::int) else None"
  let ?bad = "sampleEntry\<lparr>Entry_Published := ''yesterday''\<rparr>"
  let ?badu = "sampleEntry\<lparr>Entry_Updated := ''yesterday''\<rparr>"
  have f: "formats ! 0 = ''2006-01-02T15:04:05Z07:00''" "formats ! 1 = ''2006-01-02T15:04:05Z''"
          "formats ! 2 = ''2006-01-02T15:04:05-07:00''" "length formats = 3"
    by (simp_all add: formats_def RFC3339_def)
  have a: "(0::nat) < length formats \<and> exampleParse (formats ! 0) ''2023-01-25T12:00:00Z'' = Some 63810244800 \<and>
           (\<forall>j < (0::nat). exampleParse (formats ! j) ''2023-01-25T12:00:00Z'' = None)"
    by (simp add: f exampleParse_def RFC3339_def)
  have b: "(2::nat) < length formats \<and> ?P3 (formats ! 2) ''x'' = Some 7 \<and>
           (\<forall>j < (2::nat). ?P3 (formats ! j) ''x'' = None)"
  proof (intro conjI allI impI)
    fix j :: nat assume "j < 2"
    then have "j = 0 \<or> j = 1" by auto
    then show "?P3 (formats ! j) ''x'' = None" using f by auto
  qed (simp_all add: f)
  have c: "\<forall>j < length formats. exampleParse (formats ! j) ''yesterday'' = None"
    by (simp add: exampleParse_def)
  have d: "extractArxivID (Entry_ID ?bad) \<noteq> []" "extractArxivID (Entry_ID ?badu) \<noteq> []"
    by code_simp+
  have p: "parseTime exampleParse (Entry_Published ?bad) = Inl (ParseTimeError ''yesterday'')"
          "parseTime exampleParse (Entry_Updated ?badu) = Inl (ParseTimeError ''yesterday'')"
          "parseTime exampleParse (Entry_Published ?badu) = Inr 63810244800"
    by code_simp+
  note A = parseTime_ordered_formats[where i=0 and Parse=exampleParse and s="''2023-01-25T12:00:00Z''"
            and t=63810244800 and err="ParseTimeError ''yesterday''" and e="?bad" and f=emptyFeed
            and es="[sampleEntry]" and es'="[sampleEntry]"]
  note B = parseTime_ordered_formats[where i=2 and Parse="?P3" and s="''x''"
            and t=7 and err="ParseTimeError ''yesterday''" and e="?bad" and f=emptyFeed
            and es="[sampleEntry]" and es'="[sampleEntry]"]
  note C = parseTime_ordered_formats[where i=0 and Parse=exampleParse and s="''yesterday''"
            and t=63810244800 and err="ParseTimeError ''yesterday''" and e="?badu" and f=emptyFeed
            and es="[sampleEntry]" and es'="[sampleEntry]"]
  have 1: "parseTime exampleParse ''2023-01-25T12:00:00Z'' = Inr 63810244800"
    by (rule mp[OF A[THEN conjunct2, THEN conjunct2, THEN conjunct1] a])
  have 2: "parseTime ?P3 ''x'' = Inr 7"
    by (rule mp[OF B[THEN conjunct2, THEN conjunct2, THEN conjunct1] b])
  have 3: "parseTime exampleParse ''yesterday'' = Inl (ParseTimeError ''yesterday'')"
    by (rule mp[OF C[THEN conjunct2, THEN conjunct2, THEN conjunct2, THEN conjunct1] c])
  have 4: "ToPaper exampleParse ?bad = Inl (PublishedError (ParseTimeError ''yesterday''))"
    using A[THEN conjunct2, THEN conjunct2, THEN conjunct2, THEN conjunct2, THEN conjunct2, THEN conjunct1]
          d(1) p(1) by (rule mp[OF _ conjI])
  have 5: "ToPaper exampleParse ?badu = Inl (UpdatedError (ParseTimeError ''yesterday''))"
    using C[THEN conjunct2, THEN conjunct2, THEN conjunct2, THEN conjunct2, THEN conjunct2,
            THEN conjunct2, THEN conjunct1] d(2) p(3) p(2) by blast
  have 6: "fst (ToPapers exampleParse (emptyFeed\<lparr>Feed_Entries := [sampleEntry] @ ?bad # [sampleEntry]\<rparr>))
     = converted exampleParse [sampleEntry] @ converted exampleParse [sampleEntry]"
    using A[THEN conjunct2, THEN conjunct2, THEN conjunct2, THEN conjunct2, THEN conjunct2,
            THEN conjunct2, THEN conjunct2] p(1) by blast
  show ?thesis using 1 2 3 4 5 6 by (intro conjI)
qed

section \<open>The Fetch Client\<close>

text \<open>
  The network is an explicit effect: a function of the client returns its result and
  the trace of what it did, an \<open>HttpDo\<close> for each call of \<^verbatim>\<open>httpClient.Do\<close> and a
  \<open>Sleep\<close> for each \<^verbatim>\<open>time.Sleep\<close>. What the transport answers is the parameter
  \<open>Do\<close> (\<open>Inl\<close> when it fails), and \<^verbatim>\<open>xml.Decoder.Decode\<close> is the parameter
  \<open>Decode\<close>. Durations are in nanoseconds, as \<^verbatim>\<open>time.Duration\<close> is.
  \<open>QueryEscape\<close> is \<^verbatim>\<open>url.QueryEscape\<close>; \<^verbatim>\<open>url.Values.Encode\<close> of the one pair
  \<^verbatim>\<open>id_list\<close> is the escaped key, \<^verbatim>\<open>=\<close> and the escaped value. The two error
  returns of \<^verbatim>\<open>FetchByIDs\<close> after \<^verbatim>\<open>url.Parse\<close> and
  \<^verbatim>\<open>http.NewRequestWithContext\<close> cannot be taken: the base URL is a constant that
  parses, and the method is \<^verbatim>\<open>GET\<close>.
\<close>

definition apiBaseURL :: string where
  "apiBaseURL = ''http://export.arxiv.org/api/query''"

definition second :: int where
  "second = 1000000000"

definition defaultTimeout :: int where
  "defaultTimeout = 30 * second"

record Client =
  Client_timeout :: int
  Client_rateLimitDelay :: int

definition NewClient :: "int \<Rightarrow> Client" where
  "NewClient rateLimitDelay = \<lparr>Client_timeout = defaultTimeout, Client_rateLimitDelay = rateLimitDelay\<rparr>"

record Request =
  Request_Method :: string
  Request_URL :: string
  Request_UserAgent :: string

record Response =
  Response_StatusCode :: nat
  Response_Body :: string

datatype event = HttpDo Request | Sleep int

definition buildSearchQuery :: "string list \<Rightarrow> string list \<Rightarrow> string" where
  "buildSearchQuery categories keywords =
     (let parts = [];
          parts =
            (if length categories > 0 then
               (let catParts = map (\<lambda>cat. ''cat:'' @ cat) categories
                in if length catParts = 1 then parts @ [catParts ! 0]
                   else parts @ [''('' @ Join catParts '' OR '' @ '')''])
             else parts);
          parts =
            (if length keywords > 0 then
               (let kwParts = map (\<lambda>kw. ''all:'' @ kw) keywords
                in if length kwParts = 1 then parts @ [kwParts ! 0]
                   else parts @ [''('' @ Join kwParts '' OR '' @ '')''])
             else parts)
      in if length parts = 0 then ''all:*'' else Join parts '' AND '')"

definition unreserved :: "char \<Rightarrow> bool" where
  "unreserved c =
     (let n = (of_char c :: nat)
      in (97 \<le> n \<and> n \<le> 122) \<or> (65 \<le> n \<and> n \<le> 90) \<or> (48 \<le> n \<and> n \<le> 57) \<or>
         c = CHR ''-'' \<or> c = CHR ''_'' \<or> c = CHR ''.'' \<or> c = CHR ''~'')"

definition upperhex :: string where
  "upperhex = ''0123456789ABCDEF''"

definition escapeByte :: "char \<Rightarrow> string" where
  "escapeByte c =
     (if unreserved c then [c]
      else if c = CHR '' '' then ''+''
      else [CHR ''%'', upperhex ! ((of_char c :: nat) div 16), upperhex ! ((of_char c :: nat) mod 16)])"

definition QueryEscape :: "string \<Rightarrow> string" where
  "QueryEscape s = concat (map escapeByte s)"

definition ParseFeed :: "(string \<Rightarrow> string + Feed) \<Rightarrow> string \<Rightarrow> error + Feed" where
  "ParseFeed Decode r = (case Decode r of Inl msg \<Rightarrow> Inl (DecodeError msg) | Inr feed \<Rightarrow> Inr feed)"

definition FetchByIDs ::
  "Client \<Rightarrow> (Request \<Rightarrow> string + Response) \<Rightarrow> (string \<Rightarrow> string + Feed) \<Rightarrow> string list
     \<Rightarrow> (error + Feed) \<times> event list" where
  "FetchByIDs c Do Decode ids =
     (if length ids = 0 then (Inr emptyFeed, [])
      else
        let idList = Join ids '','';
            rawQuery = QueryEscape ''id_list'' @ ''='' @ QueryEscape idList;
            req = \<lparr>Request_Method = ''GET'', Request_URL = apiBaseURL @ ''?'' @ rawQuery,
                   Request_UserAgent = ''ArXiv-Go-Nest/1.0''\<rparr>
        in case Do req of
             Inl msg \<Rightarrow> (Inl (ExecuteRequestError msg), [HttpDo req])
           | Inr resp \<Rightarrow>
               if Response_StatusCode resp \<noteq> 200
               then (Inl (StatusError (Response_StatusCode resp) (Response_Body resp)), [HttpDo req])
               else (case ParseFeed Decode (Response_Body resp) of
                       Inl err \<Rightarrow> (Inl (ParseFeedError err), [HttpDo req])
                     | Inr feed \<Rightarrow> (Inr feed, [HttpDo req, Sleep (Client_rateLimitDelay c)])))"

definition orGroup :: "string \<Rightarrow> string list \<Rightarrow> string" where
  "orGroup field terms =
     (case terms of
        [t] \<Rightarrow> field @ t
      | _ \<Rightarrow> ''('' @ Join (map (\<lambda>t. field @ t) terms) '' OR '' @ '')'')"

subsection \<open>Properties of the Fetch Client\<close>

lemma buildSearchQuery_eq:
  "buildSearchQuery categories keywords =
     (if categories = [] then (if keywords = [] then ''all:*'' else orGroup ''all:'' keywords)
      else if keywords = [] then orGroup ''cat:'' categories
      else orGroup ''cat:'' categories @ '' AND '' @ orGroup ''all:'' keywords)"
  by (cases "categories"; cases "keywords"; cases "tl categories"; cases "tl keywords")
     (simp_all add: buildSearchQuery_def orGroup_def Let_def)

text \<open>
  Claim C6. The search expression joins the category terms with \<^verbatim>\<open>OR\<close>, in
  parentheses exactly when there is more than one (\<open>orGroup\<close>), does the same for the
  keyword terms, joins the groups that are not empty with \<^verbatim>\<open>AND\<close>, and is
  \<^verbatim>\<open>all:*\<close>, the expression that matches everything, when both are empty.
\<close>

theorem buildSearchQuery_groups:
  "buildSearchQuery [] [] = ''all:*'' \<and>
   (cats \<noteq> [] \<longrightarrow> buildSearchQuery cats [] = orGroup ''cat:'' cats) \<and>
   (kws \<noteq> [] \<longrightarrow> buildSearchQuery [] kws = orGroup ''all:'' kws) \<and>
   (cats \<noteq> [] \<and> kws \<noteq> [] \<longrightarrow>
      buildSearchQuery cats kws
        = orGroup ''cat:'' cats @ '' AND '' @ orGroup ''all:'' kws) \<and>
   orGroup field [t] = field @ t \<and>
   orGroup field (t1 # t2 # ts) = ''('' @ field @ t1 @ '' OR '' @ Join (map (\<lambda>t. field @ t) (t2 # ts)) '' OR '' @ '')'' \<and>
   Join [a, b, c] '' OR '' = a @ '' OR '' @ b @ '' OR '' @ c"
proof (intro conjI impI)
  show "buildSearchQuery [] [] = ''all:*''" by (simp add: buildSearchQuery_eq)
next
  assume "cats \<noteq> []"
  then show "buildSearchQuery cats [] = orGroup ''cat:'' cats"
    by (simp add: buildSearchQuery_eq)
next
  assume "kws \<noteq> []"
  then show "buildSearchQuery [] kws = orGroup ''all:'' kws"
    by (simp add: buildSearchQuery_eq)
next
  assume "cats \<noteq> [] \<and> kws \<noteq> []"
  then show "buildSearchQuery cats kws
      = orGroup ''cat:'' cats @ '' AND '' @ orGroup ''all:'' kws"
    by (simp add: buildSearchQuery_eq)
next
  show "orGroup field [t] = field @ t" by (simp add: orGroup_def)
  show "orGroup field (t1 # t2 # ts) = ''('' @ field @ t1 @ '' OR '' @ Join (map (\<lambda>t. field @ t) (t2 # ts)) '' OR '' @ '')''"
    by (simp add: orGroup_def)
  show "Join [a, b, c] '' OR '' = a @ '' OR '' @ b @ '' OR '' @ c" by simp
qed

theorem buildSearchQuery_groups_witness:
  "buildSearchQuery [''cs.AI'', ''cs.LG''] [] = ''(cat:cs.AI OR cat:cs.LG)'' \<and>
   buildSearchQuery [] [''transformer''] = ''all:transformer'' \<and>
   buildSearchQuery [''cs.AI'', ''cs.LG''] [''transformer'']
     = ''(cat:cs.AI OR cat:cs.LG) AND all:transformer'' \<and>
   buildSearchQuery [] [] = ''all:*''"
proof -
  have g: "orGroup ''cat:'' [''cs.AI'', ''cs.LG''] = ''(cat:cs.AI OR cat:cs.LG)''"
          "orGroup ''all:'' [''transformer''] = ''all:transformer''"
    by (simp_all add: orGroup_def)
  show ?thesis
    using buildSearchQuery_groups[where cats="[''cs.AI'', ''cs.LG'']" and kws="[''transformer'']"]
    unfolding g by simp
qed

lemma FetchByIDs_trace:
  assumes "ids \<noteq> []"
  shows "snd (FetchByIDs c Do Decode ids) =
           [HttpDo \<lparr>Request_Method = ''GET'',
                    Request_URL = apiBaseURL @ ''?id_list='' @ QueryEscape (Join ids '',''),
                    Request_UserAgent = ''ArXiv-Go-Nest/1.0''\<rparr>] \<or>
         snd (FetchByIDs c Do Decode ids) =
           [HttpDo \<lparr>Request_Method = ''GET'',
                    Request_URL = apiBaseURL @ ''?id_list='' @ QueryEscape (Join ids '',''),
                    Request_UserAgent = ''ArXiv-Go-Nest/1.0''\<rparr>,
            Sleep (Client_rateLimitDelay c)]"
proof -
  have k: "QueryEscape ''id_list'' = ''id_list''"
    by (simp add: QueryEscape_def escapeByte_def unreserved_def)
  show ?thesis
    using assms unfolding FetchByIDs_def Let_def k
    by (auto split: sum.splits)
qed

text \<open>
  Claim C7. For the empty list \<open>FetchByIDs\<close> returns an empty feed and no error, and
  its trace is empty: no request is made. For every other list the trace starts with
  one \<^verbatim>\<open>GET\<close> whose only query parameter is \<^verbatim>\<open>id_list\<close>, the identifiers joined by
  commas (escaped as a query component); nothing but the rate-limit sleep follows it.
\<close>

theorem FetchByIDs_empty_or_id_list:
  "FetchByIDs c Do Decode [] = (Inr emptyFeed, []) \<and>
   (ids \<noteq> [] \<longrightarrow>
      (\<exists>rest. snd (FetchByIDs c Do Decode ids) =
                 HttpDo \<lparr>Request_Method = ''GET'',
                          Request_URL = apiBaseURL @ ''?id_list='' @ QueryEscape (Join ids '',''),
                          Request_UserAgent = ''ArXiv-Go-Nest/1.0''\<rparr> # rest \<and>
               (rest = [] \<or> rest = [Sleep (Client_rateLimitDelay c)])))"
proof (intro conjI impI)
  show "FetchByIDs c Do Decode [] = (Inr emptyFeed, [])" by (simp add: FetchByIDs_def)
next
  assume "ids \<noteq> []"
  then show "\<exists>rest. snd (FetchByIDs c Do Decode ids) =
                 HttpDo \<lparr>Request_Method = ''GET'',
                          Request_URL = apiBaseURL @ ''?id_list='' @ QueryEscape (Join ids '',''),
                          Request_UserAgent = ''ArXiv-Go-Nest/1.0''\<rparr> # rest \<and>
               (rest = [] \<or> rest = [Sleep (Client_rateLimitDelay c)])"
    using FetchByIDs_trace[of ids c Do Decode] by auto
qed

theorem FetchByIDs_empty_or_id_list_witness:
  "FetchByIDs (NewClient (3 * second)) (\<lambda>req. Inr \<lparr>Response_StatusCode = 200, Response_Body = []\<rparr>)
      (\<lambda>body. Inr emptyFeed) [] = (Inr emptyFeed, []) \<and>
   FetchByIDs (NewClient (3 * second)) (\<lambda>req. Inr \<lparr>Response_StatusCode = 200, Response_Body = []\<rparr>)
      (\<lambda>body. Inr emptyFeed) [''2301.12345'', ''2301.67890'']
     = (Inr emptyFeed,
        [HttpDo \<lparr>Request_Method = ''GET'',
                 Request_URL = ''http://export.arxiv.org/api/query?id_list=2301.12345%2C2301.67890'',
                 Request_UserAgent = ''ArXiv-Go-Nest/1.0''\<rparr>,
         Sleep 3000000000])"
proof -
  have e: "FetchByIDs (NewClient (3 * second)) (\<lambda>req. Inr \<lparr>Response_StatusCode = 200, Response_Body = []\<rparr>)
      (\<lambda>body. Inr emptyFeed) [''2301.12345'', ''2301.67890'']
     = (Inr emptyFeed,
        [HttpDo \<lparr>Request_Method = ''GET'',
                 Request_URL = ''http://export.arxiv.org/api/query?id_list=2301.12345%2C2301.67890'',
                 Request_UserAgent = ''ArXiv-Go-Nest/1.0''\<rparr>,
         Sleep 3000000000])"
    by code_simp
  have n: "[''2301.12345'', ''2301.67890''] \<noteq> ([] :: string list)" by simp
  show ?thesis
    using FetchByIDs_empty_or_id_list[of "NewClient (3 * second)"
            "\<lambda>req. Inr \<lparr>Response_StatusCode = 200, Response_Body = []\<rparr>" "\<lambda>body. Inr emptyFeed"
            "[''2301.12345'', ''2301.67890'']"] e n
    by blast
qed

section \<open>The Upsert Store\<close>

text \<open>
  The four tables of \<^verbatim>\<open>schema.sql\<close>: \<open>papers\<close> and \<open>library\<close> keyed by the paper's
  identifier, \<open>tags\<close> by the tag's number, \<open>paper_tags\<close> a set of pairs.
  \<open>UpsertPaper\<close> is the statement
  \<^verbatim>\<open>INSERT INTO papers (...) VALUES (...) ON CONFLICT(id) DO UPDATE SET ...\<close>: it names
  every column but \<^verbatim>\<open>created_at\<close>, whose default \<^verbatim>\<open>CURRENT_TIMESTAMP\<close> is the
  parameter \<open>now\<close>. On a conflict the row is updated in place (it is not deleted, so no
  \<^verbatim>\<open>ON DELETE CASCADE\<close> fires). A failure of \<^verbatim>\<open>db.Exec\<close> is the parameter
  \<open>fault\<close>; the statement then has no effect.
\<close>

record PaperRow =
  row_title :: string
  row_abstract :: string
  row_authors :: string
  row_categories :: string
  row_published_at :: Time
  row_updated_at :: Time
  row_pdf_url :: string
  row_arxiv_url :: string
  row_created_at :: Time

record LibraryRow =
  row_is_read :: bool
  row_saved_at :: Time

record DB =
  papers :: "string \<rightharpoonup> PaperRow"
  library :: "string \<rightharpoonup> LibraryRow"
  tags :: "int \<rightharpoonup> string"
  paper_tags :: "(string \<times> int) set"

definition UpsertPaper :: "DB \<Rightarrow> Time \<Rightarrow> string option \<Rightarrow> Paper \<Rightarrow> error option \<times> DB" where
  "UpsertPaper db now fault paper =
     (case fault of
        Some msg \<Rightarrow> (Some (ExecError msg), db)
      | None \<Rightarrow>
          (None,
           db\<lparr>papers := (papers db)(Paper_ID paper \<mapsto>
                (case papers db (Paper_ID paper) of
                   None \<Rightarrow>
                     \<lparr> row_title = Paper_Title paper,
                       row_abstract = Paper_Abstract paper,
                       row_authors = Paper_Authors paper,
                       row_categories = Paper_Categories paper,
                       row_published_at = Paper_PublishedAt paper,
                       row_updated_at = Paper_UpdatedAt paper,
                       row_pdf_url = Paper_PDFUrl paper,
                       row_arxiv_url = Paper_ArxivUrl paper,
                       row_created_at = now \<rparr>
                 | Some old \<Rightarrow>
                     old\<lparr> row_title := Paper_Title paper,
                          row_abstract := Paper_Abstract paper,
                          row_authors := Paper_Authors paper,
                          row_categories := Paper_Categories paper,
                          row_published_at := Paper_PublishedAt paper,
                          row_updated_at := Paper_UpdatedAt paper,
                          row_pdf_url := Paper_PDFUrl paper,
                          row_arxiv_url := Paper_ArxivUrl paper \<rparr>))\<rparr>))"

definition rowOf :: "Paper \<Rightarrow> Time \<Rightarrow> PaperRow" where
  "rowOf paper created =
     \<lparr> row_title = Paper_Title paper,
       row_abstract = Paper_Abstract paper,
       row_authors = Paper_Authors paper,
       row_categories = Paper_Categories paper,
       row_published_at = Paper_PublishedAt paper,
       row_updated_at = Paper_UpdatedAt paper,
       row_pdf_url = Paper_PDFUrl paper,
       row_arxiv_url = Paper_ArxivUrl paper,
       row_created_at = created \<rparr>"

definition emptyDB :: DB where
  "emptyDB = \<lparr>papers = Map.empty, library = Map.empty, tags = Map.empty, paper_tags = {}\<rparr>"

definition sampleDB :: DB where
  "sampleDB =
     \<lparr> papers = [''2301.12345'' \<mapsto> rowOf samplePaper 100],
       library = [''2301.12345'' \<mapsto> \<lparr>row_is_read = True, row_saved_at = 200\<rparr>],
       tags = [1 \<mapsto> ''to-read''],
       paper_tags = {(''2301.12345'', 1)} \<rparr>"

subsection \<open>Properties of the Upsert Store\<close>

lemma UpsertPaper_row:
  "papers (snd (UpsertPaper db now None paper)) (Paper_ID paper) =
     Some (rowOf paper (case papers db (Paper_ID paper) of None \<Rightarrow> now | Some old \<Rightarrow> row_created_at old))"
  by (cases "papers db (Paper_ID paper)") (simp_all add: UpsertPaper_def rowOf_def)

lemma UpsertPaper_twice:
  "UpsertPaper (snd (UpsertPaper db now None paper)) now' None paper = (None, snd (UpsertPaper db now None paper))"
  by (cases "papers db (Paper_ID paper)") (simp_all add: UpsertPaper_def)

text \<open>
  Claim C1. When the statement runs, \<open>UpsertPaper\<close> reports no error; a paper whose
  key is absent gets a new row with the paper's fields and \<open>created_at\<close> the time of
  the insertion; a paper whose key is present has every field of the row overwritten by
  the paper's, and \<open>created_at\<close> kept. No other row of \<open>papers\<close> changes, and the
  \<open>library\<close> (with its \<open>is_read\<close> flags), \<open>tags\<close> and \<open>paper_tags\<close> tables are
  untouched. A second upsert of the same paper, at any later time, leaves the database as
  the first one left it. When the driver reports a failure nothing changes.
\<close>

theorem UpsertPaper_frame:
  "fst (UpsertPaper db now None paper) = None \<and>
   (papers db (Paper_ID paper) = None \<longrightarrow>
      papers (snd (UpsertPaper db now None paper)) (Paper_ID paper) = Some (rowOf paper now)) \<and>
   (papers db (Paper_ID paper) = Some old \<longrightarrow>
      papers (snd (UpsertPaper db now None paper)) (Paper_ID paper)
        = Some (rowOf paper (row_created_at old))) \<and>
   (k \<noteq> Paper_ID paper \<longrightarrow> papers (snd (UpsertPaper db now None paper)) k = papers db k) \<and>
   library (snd (UpsertPaper db now None paper)) = library db \<and>
   tags (snd (UpsertPaper db now None paper)) = tags db \<and>
   paper_tags (snd (UpsertPaper db now None paper)) = paper_tags db \<and>
   UpsertPaper (snd (UpsertPaper db now None paper)) now' None paper
     = (None, snd (UpsertPaper db now None paper)) \<and>
   UpsertPaper db now (Some msg) paper = (Some (ExecError msg), db)"
proof (intro conjI impI)
  show "fst (UpsertPaper db now None paper) = None" by (simp add: UpsertPaper_def)
next
  assume "papers db (Paper_ID paper) = None"
  then show "papers (snd (UpsertPaper db now None paper)) (Paper_ID paper) = Some (rowOf paper now)"
    by (simp add: UpsertPaper_row)
next
  assume "papers db (Paper_ID paper) = Some old"
  then show "papers (snd (UpsertPaper db now None paper)) (Paper_ID paper)
        = Some (rowOf paper (row_created_at old))"
    by (simp add: UpsertPaper_row)
next
  assume "k \<noteq> Paper_ID paper"
  then show "papers (snd (UpsertPaper db now None paper)) k = papers db k"
    by (simp add: UpsertPaper_def)
next
  show "library (snd (UpsertPaper db now None paper)) = library db" by (simp add: UpsertPaper_def)
  show "tags (snd (UpsertPaper db now None paper)) = tags db" by (simp add: UpsertPaper_def)
  show "paper_tags (snd (UpsertPaper db now None paper)) = paper_tags db" by (simp add: UpsertPaper_def)
  show "UpsertPaper (snd (UpsertPaper db now None paper)) now' None paper
     = (None, snd (UpsertPaper db now None paper))" by (rule UpsertPaper_twice)
  show "UpsertPaper db now (Some msg) paper = (Some (ExecError msg), db)" by (simp add: UpsertPaper_def)
qed

theorem UpsertPaper_frame_witness:
  "papers (snd (UpsertPaper emptyDB 300 None samplePaper)) ''2301.12345'' = Some (rowOf samplePaper 300) \<and>
   papers (snd (UpsertPaper sampleDB 300 None (samplePaper\<lparr>Paper_Title := ''Updated Title''\<rparr>))) ''2301.12345''
     = Some (rowOf (samplePaper\<lparr>Paper_Title := ''Updated Title''\<rparr>) 100) \<and>
   papers (snd (UpsertPaper sampleDB 300 None (samplePaper\<lparr>Paper_Title := ''Updated Title''\<rparr>))) ''2301.67890''
     = papers sampleDB ''2301.67890'' \<and>
   library (snd (UpsertPaper sampleDB 300 None (samplePaper\<lparr>Paper_Title := ''Updated Title''\<rparr>)))
     = library sampleDB \<and>
   paper_tags (snd (UpsertPaper sampleDB 300 None (samplePaper\<lparr>Paper_Title := ''Updated Title''\<rparr>)))
     = paper_tags sampleDB \<and>
   UpsertPaper (snd (UpsertPaper sampleDB 300 None (samplePaper\<lparr>Paper_Title := ''Updated Title''\<rparr>))) 400 None
       (samplePaper\<lparr>Paper_Title := ''Updated Title''\<rparr>)
     = (None, snd (UpsertPaper sampleDB 300 None (samplePaper\<lparr>Paper_Title := ''Updated Title''\<rparr>)))"
proof -
  let ?p = "samplePaper\<lparr>Paper_Title := ''Updated Title''\<rparr>"
  have i: "Paper_ID samplePaper = ''2301.12345''" "Paper_ID ?p = ''2301.12345''"
    by (simp_all add: samplePaper_def)
  have a: "papers emptyDB (Paper_ID samplePaper) = None" by (simp add: emptyDB_def)
  have b: "papers sampleDB (Paper_ID ?p) = Some (rowOf samplePaper 100)"
    by (simp add: sampleDB_def i)
  have c: "row_created_at (rowOf samplePaper 100) = 100" by (simp add: rowOf_def)
  have d: "''2301.67890'' \<noteq> Paper_ID ?p" by (simp add: i)
  note A = UpsertPaper_frame[where db=emptyDB and now=300 and paper=samplePaper
             and old="rowOf samplePaper 100" and k="''2301.67890''" and now'=400 and msg="[]"]
  note B = UpsertPaper_frame[where db=sampleDB and now=300 and paper="?p"
             and old="rowOf samplePaper 100" and k="''2301.67890''" and now'=400 and msg="[]"]
  have 1: "papers (snd (UpsertPaper emptyDB 300 None samplePaper)) ''2301.12345'' = Some (rowOf samplePaper 300)"
    using A a i(1) by simp
  have 2: "papers (snd (UpsertPaper sampleDB 300 None ?p)) ''2301.12345'' = Some (rowOf ?p 100)"
    using B b c i(2) by simp
  have 3: "papers (snd (UpsertPaper sampleDB 300 None ?p)) ''2301.67890'' = papers sampleDB ''2301.67890''"
    using B d by blast
  show ?thesis using 1 2 3 B by blast
qed

section \<open>The Scheduler\<close>

text \<open>
  \<^verbatim>\<open>startScheduler\<close> (\<^verbatim>\<open>cmd/server/main.go\<close>) creates the ticker and the stop channel
  and starts a goroutine; the goroutine is modelled as a timed transition system.
  \<^verbatim>\<open>time.NewTicker\<close> panics when its interval is not positive, and the configuration
  does not validate \<^verbatim>\<open>fetch_interval\<close>: for such an interval \<open>startScheduler\<close> is
  \<open>None\<close>, and nothing runs.

  The program counter of the goroutine is at the warm-up \<^verbatim>\<open>time.Sleep\<close>, in the
  initial \<^verbatim>\<open>fetchPapers\<close>, at the \<^verbatim>\<open>select\<close>, in a \<^verbatim>\<open>fetchPapers\<close> started by a tick,
  or past the \<^verbatim>\<open>return\<close>. The state also holds the time since \<^verbatim>\<open>startScheduler\<close> was
  called (in nanoseconds), the ticker (its period, the time of its next tick, whether
  \<^verbatim>\<open>ticker.Stop\<close> was called, and whether a tick waits in its channel, which holds
  one), whether the stop channel is closed, and two counters that the code does not have:
  the ticks that have come due and the cycles started.

  The actions: time passes (\<open>Wait\<close>), and as it passes the ticker puts every tick that
  comes due into its channel (\<open>deliver\<close>; a tick that finds the channel full is
  dropped); the stop function closes the channel (a second call would panic); a cycle
  begins, out of the sleep once the warm-up delay has passed or out of the \<^verbatim>\<open>select\<close>
  when a tick waits; a cycle ends; the \<^verbatim>\<open>select\<close> takes the stop branch. A
  \<^verbatim>\<open>select\<close> blocks only while none of its cases is ready: time does not pass at the
  \<^verbatim>\<open>select\<close> while a tick waits or the stop channel is closed (\<open>select_ready\<close>). When
  a tick waits and the stop channel is closed, both branches are enabled: Go chooses one
  at random. A run is a list of actions, \<open>execute\<close> its effect (\<open>None\<close> when an action
  is not enabled), \<open>runScheduler\<close> a run from the call of \<^verbatim>\<open>startScheduler\<close>.
  \<open>steady\<close> is the run without a stop signal in which every cycle lasts one interval,
  so that the next tick waits when the cycle ends.
\<close>

datatype pc = Sleeping | InitialFetch | Selecting | TickFetch | Returned

record Scheduler =
  sched_pc :: pc
  sched_now :: int
  sched_interval :: int
  sched_next_tick :: int
  sched_ticker_on :: bool
  sched_tick_ready :: bool
  sched_stop_closed :: bool
  sched_ticks :: nat
  sched_cycles :: nat




definition deliver :: "Scheduler \<Rightarrow> Scheduler" where
  "deliver s =
     (if sched_ticker_on s \<and> sched_next_tick s \<le> sched_now s
      then let k = (sched_now s - sched_next_tick s) div sched_interval s + 1
           in s\<lparr>sched_tick_ready := True,
                sched_next_tick := sched_next_tick s + k * sched_interval s,
                sched_ticks := sched_ticks s + nat k\<rparr>
      else s)"









subsection \<open>Properties of the Scheduler\<close>









lemma deliver_stop: "sched_stop_closed (deliver s) = sched_stop_closed s"
  by (simp add: deliver_def Let_def)

lemma deliver_off: "\<not> sched_ticker_on s \<Longrightarrow> deliver s = s"
  by (simp add: deliver_def)



















end
